theory Spec2Isabelle
  imports Main "HOL-Library.AList" "HOL-Library.Char_ord" "HOL-Library.List_Lexorder"
    "HOL-Library.Product_Lexorder"
begin

section \<open>The task scheduler of automation/scheduler/task\_scheduler.py\<close>

subsection \<open>Values\<close>

text \<open>
  Payloads (\<open>params\<close>, \<open>result\<close>) are JSON values; Python's \<open>None\<close> is \<open>JNull\<close>.
  A task's status is one of the five strings the source uses (line 44).
  A (naive) \<open>datetime\<close> is an integer, its count of microseconds since
  1970-01-01T00:00:00; \<open>datetime.min\<close> and \<open>datetime.max\<close> bound the type. A string handed
  to \<open>datetime.fromisoformat\<close> either denotes a datetime (\<open>IsoTime\<close>, in particular
  every output of \<open>isoformat()\<close>) or is rejected with a ValueError (\<open>NotIso\<close>).
\<close>

datatype json = JNull | JBool bool | JInt int | JStr string | JList "json list"
  | JObj "(string \<times> json) list"

datatype status = Scheduled | Running | Completed | Failed | Cancelled

datatype iso = IsoTime int | NotIso string

datatype py_error = KeyError string | ValueError

definition isoformat :: "int \<Rightarrow> iso" where
  "isoformat t = IsoTime t"

definition fromisoformat :: "iso \<Rightarrow> py_error + int" where
  "fromisoformat x = (case x of IsoTime t \<Rightarrow> Inr t | NotIso _ \<Rightarrow> Inl ValueError)"

definition truthy_iso :: "iso option \<Rightarrow> bool" where
  "truthy_iso x = (case x of None \<Rightarrow> False | Some (NotIso []) \<Rightarrow> False | Some _ \<Rightarrow> True)"

definition truthy_str :: "string option \<Rightarrow> bool" where
  "truthy_str x = (case x of None \<Rightarrow> False | Some u \<Rightarrow> u \<noteq> [])"

definition datetime_min :: int where
  "datetime_min = - 62135596800000000"

definition datetime_max :: int where
  "datetime_max = 253402300799999999"

text \<open>\<open>now + timedelta(seconds=n)\<close>: the constructor of \<open>timedelta\<close> raises OverflowError
  when the delay has more than 999999999 days in magnitude, and the addition raises it
  when the sum is not a \<open>datetime\<close>; \<open>None\<close> is that error.\<close>

definition add_seconds :: "int \<Rightarrow> int \<Rightarrow> int option" where
  "add_seconds now n =
     (if n div 86400 < - 999999999 \<or> 999999999 < n div 86400 then None
      else if now + 1000000 * n < datetime_min \<or> datetime_max < now + 1000000 * n then None
      else Some (now + 1000000 * n))"

definition digit_char :: "nat \<Rightarrow> char" where
  "digit_char d = char_of (48 + d)"

fun str_nat :: "nat \<Rightarrow> string" where
  "str_nat n = (if n < 10 then [digit_char n] else str_nat (n div 10) @ [digit_char (n mod 10)])"

declare str_nat.simps [simp del]

definition str_int :: "int \<Rightarrow> string" where
  "str_int i = (if i < 0 then CHR ''-'' # str_nat (nat (- i)) else str_nat (nat i))"

subsection \<open>Task\<close>

record task =
  task_id :: string
  task_type :: string
  params :: json
  schedule_time :: int
  priority :: int
  max_retries :: int
  retry_delay :: int
  timeout :: int
  callback_url :: "string option"
  status :: status
  retry_count :: int
  start_time :: "int option"
  end_time :: "int option"
  result :: json
  error :: "string option"

text \<open>\<open>Task.__init__\<close> (lines 21-49); the defaults are priority 1, max\_retries 3,
  retry\_delay 300, timeout 3600, callback\_url None.\<close>

definition Task_init ::
  "string \<Rightarrow> string \<Rightarrow> json \<Rightarrow> int \<Rightarrow> int \<Rightarrow> int \<Rightarrow> int \<Rightarrow> int \<Rightarrow> string option \<Rightarrow> task" where
  "Task_init tid ty ps st pr mr rd tmo cb =
     \<lparr>task_id = tid, task_type = ty, params = ps, schedule_time = st, priority = pr,
      max_retries = mr, retry_delay = rd, timeout = tmo, callback_url = cb,
      status = Scheduled, retry_count = 0, start_time = None, end_time = None,
      result = JNull, error = None\<rparr>"

text \<open>The dictionary of \<open>to_dict\<close>/\<open>from_dict\<close>: one field per key, \<open>None\<close> for a key
  that is absent (or, for the Optional fields, null).\<close>

record task_dict =
  d_task_id :: "string option"
  d_task_type :: "string option"
  d_params :: "json option"
  d_schedule_time :: "iso option"
  d_priority :: "int option"
  d_max_retries :: "int option"
  d_retry_delay :: "int option"
  d_timeout :: "int option"
  d_callback_url :: "string option"
  d_status :: "status option"
  d_retry_count :: "int option"
  d_start_time :: "iso option"
  d_end_time :: "iso option"
  d_result :: json
  d_error :: "string option"

definition to_dict :: "task \<Rightarrow> task_dict" where
  "to_dict t =
     \<lparr>d_task_id = Some (task_id t), d_task_type = Some (task_type t),
      d_params = Some (params t), d_schedule_time = Some (isoformat (schedule_time t)),
      d_priority = Some (priority t), d_max_retries = Some (max_retries t),
      d_retry_delay = Some (retry_delay t), d_timeout = Some (timeout t),
      d_callback_url = callback_url t, d_status = Some (status t),
      d_retry_count = Some (retry_count t),
      d_start_time = map_option isoformat (start_time t),
      d_end_time = map_option isoformat (end_time t),
      d_result = result t, d_error = error t\<rparr>"

definition get_default :: "'a option \<Rightarrow> 'a \<Rightarrow> 'a" where
  "get_default x d = (case x of None \<Rightarrow> d | Some v \<Rightarrow> v)"

text \<open>\<open>if data.get(key): task.attr = datetime.fromisoformat(data[key])\<close>, the attribute
  being None before.\<close>

definition parse_optional_time :: "iso option \<Rightarrow> py_error + int option" where
  "parse_optional_time x =
     (case x of
        None \<Rightarrow> Inr None
      | Some i \<Rightarrow>
          if truthy_iso x
          then (case fromisoformat i of Inl e \<Rightarrow> Inl e | Inr t \<Rightarrow> Inr (Some t))
          else Inr None)"

definition from_dict :: "task_dict \<Rightarrow> py_error + task" where
  "from_dict d =
     (case d_task_id d of None \<Rightarrow> Inl (KeyError ''task_id'') | Some tid \<Rightarrow>
     (case d_task_type d of None \<Rightarrow> Inl (KeyError ''task_type'') | Some ty \<Rightarrow>
     (case d_params d of None \<Rightarrow> Inl (KeyError ''params'') | Some ps \<Rightarrow>
     (case d_schedule_time d of None \<Rightarrow> Inl (KeyError ''schedule_time'') | Some iso_st \<Rightarrow>
     (case fromisoformat iso_st of Inl e \<Rightarrow> Inl e | Inr st \<Rightarrow>
      (let t0 = Task_init tid ty ps st (get_default (d_priority d) 1)
                 (get_default (d_max_retries d) 3) (get_default (d_retry_delay d) 300)
                 (get_default (d_timeout d) 3600) (d_callback_url d);
           t1 = t0\<lparr>status := get_default (d_status d) Scheduled,
                  retry_count := get_default (d_retry_count d) 0\<rparr>
       in (case parse_optional_time (d_start_time d) of Inl e \<Rightarrow> Inl e | Inr stt \<Rightarrow>
          (case parse_optional_time (d_end_time d) of Inl e \<Rightarrow> Inl e | Inr ent \<Rightarrow>
           Inr (t1\<lparr>start_time := stt, end_time := ent,
                   result := d_result d, error := d_error d\<rparr>)))))))))"

subsection \<open>The ready queue\<close>

text \<open>
  An entry of \<open>asyncio.PriorityQueue\<close> is the tuple
  \<open>((priority, schedule_time.timestamp(), task_id), task_id)\<close>; Python compares tuples,
  and strings, lexicographically. \<open>put\<close> adds an entry, \<open>get\<close> removes a least one.
  \<open>timestamp()\<close> reads the naive datetime in the local time zone of the process and
  returns a float: it depends on the zone, need not grow with the datetime across a
  change of the clock, and gives the same float for close datetimes far from 1970. So it
  is a parameter \<open>ts\<close>, the float being represented by an integer with the same order.
\<close>

type_synonym entry = "(int \<times> int \<times> string) \<times> string"

definition priority_item :: "(int \<Rightarrow> int) \<Rightarrow> task \<Rightarrow> int \<times> int \<times> string" where
  "priority_item ts t = (priority t, ts (schedule_time t), task_id t)"

definition queue_put :: "entry list \<Rightarrow> entry \<Rightarrow> entry list" where
  "queue_put q e = q @ [e]"

fun queue_min :: "entry list \<Rightarrow> entry option" where
  "queue_min [] = None"
| "queue_min (e # q) = (case queue_min q of None \<Rightarrow> Some e | Some m \<Rightarrow> Some (if e \<le> m then e else m))"

definition queue_get :: "entry list \<Rightarrow> (entry \<times> entry list) option" where
  "queue_get q = (case queue_min q of None \<Rightarrow> None | Some m \<Rightarrow> Some (m, remove1 m q))"

subsection \<open>TaskScheduler\<close>

text \<open>
  Task objects live in the store \<open>objects\<close> and are referred to by their address,
  since \<open>self.tasks\<close> and every running coroutine share them; \<open>next_object\<close> is the
  next free address. A runner is the
  \<open>asyncio.Task\<close> that \<open>_worker\<close> creates for \<open>_execute_task(task)\<close>: it is \<open>Pending\<close>
  until the event loop first runs it, \<open>Awaiting\<close> while suspended in
  \<open>await asyncio.wait_for(handler(task), ...)\<close>, and \<open>Done\<close> afterwards.
  \<open>handlers\<close> holds the keys of the handler dictionary, \<open>storage\<close> the contents of the
  file at \<open>storage_path\<close> (None: no file), \<open>callbacks\<close> the requests posted by
  \<open>_send_callback\<close> (url and JSON body) and \<open>handler_calls\<close> the task objects the
  handlers were called with, both oldest first. \<open>timestamp\<close> is the \<open>timestamp()\<close> of
  the process's time zone.
\<close>

datatype phase = Pending | Awaiting | Done

record runner =
  r_task :: nat
  r_phase :: phase
  r_cancel :: bool

record scheduler =
  objects :: "nat \<Rightarrow> task"
  next_object :: nat
  tasks :: "(string \<times> nat) list"
  task_queue :: "entry list"
  max_concurrent_tasks :: int
  running_tasks :: "(string \<times> nat) list"
  runners :: "nat \<Rightarrow> runner"
  next_runner :: nat
  handlers :: "string list"
  is_running :: bool
  storage :: "(string \<times> task_dict) list option"
  callbacks :: "(string \<times> task_dict) list"
  handler_calls :: "nat list"
  timestamp :: "int \<Rightarrow> int"

definition save_tasks :: "scheduler \<Rightarrow> scheduler" where
  "save_tasks s =
     s\<lparr>storage := Some (map (\<lambda>(tid, r). (tid, to_dict (objects s r))) (tasks s))\<rparr>"

text \<open>\<open>load_tasks\<close> (lines 298-315): an exception of \<open>from_dict\<close> leaves the loop, keeping
  what was loaded before it.\<close>

fun load_items :: "(string \<times> task_dict) list \<Rightarrow> scheduler \<Rightarrow> scheduler" where
  "load_items [] s = s"
| "load_items ((tid, d) # rest) s =
     (case from_dict d of
        Inl e \<Rightarrow> s
      | Inr t \<Rightarrow>
          let s1 = s\<lparr>objects := (objects s)(next_object s := t),
                     next_object := Suc (next_object s),
                     tasks := AList.update tid (next_object s) (tasks s)\<rparr>;
              s2 = (if status t = Scheduled
                    then s1\<lparr>task_queue :=
                           queue_put (task_queue s1) (priority_item (timestamp s1) t, tid)\<rparr>
                    else s1)
          in load_items rest s2)"

definition load_tasks :: "scheduler \<Rightarrow> scheduler" where
  "load_tasks s = (case storage s of None \<Rightarrow> s | Some items \<Rightarrow> load_items items s)"

text \<open>\<open>TaskScheduler(max_concurrent_tasks, storage_path)\<close> in a process whose time zone
  has the timestamps \<open>ts\<close>, the file at the path holding \<open>file\<close>.\<close>

definition TaskScheduler_init ::
  "(int \<Rightarrow> int) \<Rightarrow> int \<Rightarrow> (string \<times> task_dict) list option \<Rightarrow> scheduler" where
  "TaskScheduler_init ts n file =
     load_tasks \<lparr>objects = (\<lambda>_. Task_init [] [] JNull 0 1 3 300 3600 None), next_object = 0,
                 tasks = [], task_queue = [], max_concurrent_tasks = n,
                 running_tasks = [],
                 runners = (\<lambda>_. \<lparr>r_task = 0, r_phase = Done, r_cancel = False\<rparr>),
                 next_runner = 0, handlers = [], is_running = False,
                 storage = file, callbacks = [], handler_calls = [], timestamp = ts\<rparr>"

text \<open>A zone without changes of the clock, for datetimes whose count of microseconds a
  float holds exactly.\<close>

definition utc :: "int \<Rightarrow> int" where
  "utc t = t"

definition register_handler :: "scheduler \<Rightarrow> string \<Rightarrow> scheduler" where
  "register_handler s ty = s\<lparr>handlers := List.insert ty (handlers s)\<rparr>"

text \<open>A caller's \<open>Task(...)\<close> allocates the object; \<open>schedule_task\<close> receives the reference.\<close>

definition new_task :: "scheduler \<Rightarrow> task \<Rightarrow> nat \<times> scheduler" where
  "new_task s t =
     (next_object s, s\<lparr>objects := (objects s)(next_object s := t),
                         next_object := Suc (next_object s)\<rparr>)"

definition schedule_task :: "scheduler \<Rightarrow> nat \<Rightarrow> string \<times> scheduler" where
  "schedule_task s r =
     (let t = objects s r;
          s1 = s\<lparr>tasks := AList.update (task_id t) r (tasks s)\<rparr>;
          s2 = s1\<lparr>task_queue :=
                 queue_put (task_queue s1) (priority_item (timestamp s1) t, task_id t)\<rparr>
      in (task_id t, save_tasks s2))"

text \<open>\<open>asyncio.Task.cancel()\<close>: requests cancellation unless the task is done.\<close>

definition cancel_runner :: "nat \<Rightarrow> scheduler \<Rightarrow> scheduler" where
  "cancel_runner rid s =
     (if r_phase (runners s rid) \<noteq> Done
      then s\<lparr>runners := (runners s)(rid := (runners s rid)\<lparr>r_cancel := True\<rparr>)\<rparr>
      else s)"

definition cancel_task :: "scheduler \<Rightarrow> string \<Rightarrow> bool \<times> scheduler" where
  "cancel_task s tid =
     (case map_of (tasks s) tid of
        None \<Rightarrow> (False, s)
      | Some r \<Rightarrow>
          let t = objects s r in
          if status t = Scheduled \<or> status t = Running then
            let s1 = s\<lparr>objects := (objects s)(r := t\<lparr>status := Cancelled\<rparr>)\<rparr>;
                s2 = (case map_of (running_tasks s1) tid of
                        None \<Rightarrow> s1
                      | Some rid \<Rightarrow> cancel_runner rid s1)
            in (True, save_tasks s2)
          else (False, s))"

definition get_task :: "scheduler \<Rightarrow> string \<Rightarrow> task option" where
  "get_task s tid = map_option (\<lambda>r. objects s r) (map_of (tasks s) tid)"

definition get_all_tasks :: "scheduler \<Rightarrow> task list" where
  "get_all_tasks s = map (\<lambda>(tid, r). objects s r) (tasks s)"

definition get_tasks_by_status :: "scheduler \<Rightarrow> status \<Rightarrow> task list" where
  "get_tasks_by_status s st = filter (\<lambda>t. status t = st) (get_all_tasks s)"

subsection \<open>\_execute\_task\<close>

text \<open>
  The coroutine runs in two uninterrupted pieces, split at its one suspension point, the
  \<open>await\<close> of the handler: \<open>execute_task_begin\<close> is lines 159-176 up to the call of the
  handler, \<open>execute_task_resume\<close> is what follows once the \<open>await\<close> has an outcome.
\<close>

text \<open>What the \<open>await\<close> yields: the handler's value, \<open>asyncio.TimeoutError\<close>, another
  \<open>Exception\<close> (with its \<open>str\<close>), or \<open>CancelledError\<close>, which is no \<open>Exception\<close> and
  passes both \<open>except\<close> clauses.\<close>

datatype outcome = Returned json | TimedOut | Raised string | CancelledError

definition no_handler_message :: "task \<Rightarrow> string" where
  "no_handler_message t = ''No handler registered for task type: '' @ task_type t"

definition timeout_message :: "task \<Rightarrow> string" where
  "timeout_message t = ''Task execution timed out after '' @ str_int (timeout t) @ '' seconds''"

definition set_phase :: "nat \<Rightarrow> phase \<Rightarrow> scheduler \<Rightarrow> scheduler" where
  "set_phase rid p s = s\<lparr>runners := (runners s)(rid := (runners s rid)\<lparr>r_phase := p\<rparr>)\<rparr>"

definition send_callback :: "task \<Rightarrow> scheduler \<Rightarrow> scheduler" where
  "send_callback t s =
     (case callback_url t of
        None \<Rightarrow> s
      | Some url \<Rightarrow> s\<lparr>callbacks := callbacks s @ [(url, to_dict t)]\<rparr>)"

definition execute_task_begin :: "scheduler \<Rightarrow> nat \<Rightarrow> int \<Rightarrow> scheduler" where
  "execute_task_begin s rid now =
     (let r = r_task (runners s rid); t = objects s r in
      if task_type t \<notin> set (handlers s) then
        set_phase rid Done
          (save_tasks (s\<lparr>objects :=
             (objects s)(r := t\<lparr>status := Failed, error := Some (no_handler_message t)\<rparr>)\<rparr>))
      else
        set_phase rid Awaiting
          (save_tasks (s\<lparr>objects :=
             (objects s)(r := t\<lparr>status := Running, start_time := Some now\<rparr>),
                          handler_calls := handler_calls s @ [r]\<rparr>)))"

text \<open>The body shared by the two \<open>except\<close> blocks (lines 183-194 and 197-208), which
  differ in the message only. When \<open>datetime.now() + timedelta(seconds=task.retry_delay)\<close>
  raises OverflowError (lines 191 and 205), the count and the status are already
  written, the schedule time and the queue are not, and the error leaves the block for
  \<open>finally\<close>.\<close>

definition except_block :: "string \<Rightarrow> int \<Rightarrow> nat \<Rightarrow> scheduler \<Rightarrow> scheduler" where
  "except_block msg now r s =
     (let t1 = (objects s r)\<lparr>status := Failed, error := Some msg\<rparr> in
      if retry_count t1 < max_retries t1 then
        let t2 = t1\<lparr>retry_count := retry_count t1 + 1, status := Scheduled\<rparr> in
        case add_seconds now (retry_delay t2) of
          None \<Rightarrow> s\<lparr>objects := (objects s)(r := t2)\<rparr>
        | Some st \<Rightarrow>
            let t3 = t2\<lparr>schedule_time := st\<rparr>
            in s\<lparr>objects := (objects s)(r := t3),
                  task_queue :=
                    queue_put (task_queue s) (priority_item (timestamp s) t3, task_id t3)\<rparr>
      else s\<lparr>objects := (objects s)(r := t1)\<rparr>)"

definition finally_block :: "int \<Rightarrow> nat \<Rightarrow> scheduler \<Rightarrow> scheduler" where
  "finally_block now r s =
     (let t = (objects s r)\<lparr>end_time := Some now\<rparr>;
          s1 = s\<lparr>objects := (objects s)(r := t)\<rparr>;
          s2 = (if task_id t \<in> fst ` set (running_tasks s1)
                then s1\<lparr>running_tasks := AList.delete (task_id t) (running_tasks s1)\<rparr>
                else s1);
          s3 = save_tasks s2
      in if truthy_str (callback_url t) \<and> (status t = Completed \<or> status t = Failed)
         then send_callback t s3 else s3)"

definition execute_task_resume :: "scheduler \<Rightarrow> nat \<Rightarrow> outcome \<Rightarrow> int \<Rightarrow> int \<Rightarrow> scheduler" where
  "execute_task_resume s rid out now_retry now_end =
     (let r = r_task (runners s rid); t = objects s r;
          s1 = (case out of
                  Returned v \<Rightarrow> s\<lparr>objects := (objects s)(r := t\<lparr>status := Completed, result := v\<rparr>)\<rparr>
                | TimedOut \<Rightarrow> except_block (timeout_message t) now_retry r s
                | Raised msg \<Rightarrow> except_block msg now_retry r s
                | CancelledError \<Rightarrow> s)
      in set_phase rid Done (finally_block now_end r s1))"

subsection \<open>\_worker, start and shutdown\<close>

text \<open>One iteration of the loop of \<open>_worker\<close> (lines 242-280); \<open>now\<close> is what
  \<open>datetime.now()\<close> returns on line 268.\<close>

definition worker_iteration :: "scheduler \<Rightarrow> int \<Rightarrow> scheduler" where
  "worker_iteration s now =
     (if max_concurrent_tasks s \<le> int (length (running_tasks s)) then s
      else case queue_get (task_queue s) of
        None \<Rightarrow> s
      | Some ((_, tid), q) \<Rightarrow>
          (case map_of (tasks s) tid of
             None \<Rightarrow> s\<lparr>task_queue := q\<rparr>
           | Some r \<Rightarrow>
               let t = objects s r in
               if status t = Cancelled then s\<lparr>task_queue := q\<rparr>
               else if now < schedule_time t
               then s\<lparr>task_queue := queue_put q (priority_item (timestamp s) t, tid)\<rparr>
               else s\<lparr>task_queue := q,
                      runners := (runners s)(next_runner s :=
                                   \<lparr>r_task = r, r_phase = Pending, r_cancel = False\<rparr>),
                      next_runner := Suc (next_runner s),
                      running_tasks := AList.update tid (next_runner s) (running_tasks s)\<rparr>))"

definition start :: "scheduler \<Rightarrow> scheduler" where
  "start s = (if is_running s then s else s\<lparr>is_running := True\<rparr>)"

text \<open>\<open>shutdown\<close> (lines 332-359) in its three uninterrupted pieces: stopping the worker,
  the loop over \<open>running_tasks\<close> (a missing key of \<open>self.tasks\<close> would raise and leave
  the loop), and, after the \<open>gather\<close>, the final save.\<close>

definition shutdown_stop :: "scheduler \<Rightarrow> scheduler" where
  "shutdown_stop s = s\<lparr>is_running := False\<rparr>"

fun cancel_all :: "(string \<times> nat) list \<Rightarrow> scheduler \<Rightarrow> scheduler" where
  "cancel_all [] s = s"
| "cancel_all ((tid, rid) # rest) s =
     (let s1 = cancel_runner rid s in
      case map_of (tasks s1) tid of
        None \<Rightarrow> s1
      | Some r \<Rightarrow>
          cancel_all rest (s1\<lparr>objects := (objects s1)(r := (objects s1 r)\<lparr>status := Cancelled\<rparr>)\<rparr>))"

definition shutdown_cancel :: "scheduler \<Rightarrow> scheduler" where
  "shutdown_cancel s = cancel_all (running_tasks s) s"

definition shutdown_save :: "scheduler \<Rightarrow> scheduler" where
  "shutdown_save s = save_tasks s"

subsection \<open>Runs\<close>

text \<open>
  What happens to a scheduler is a sequence of events, each one uninterrupted piece of
  code run by the event loop: calls of the public methods, one iteration of the worker
  (only while \<open>is_running\<close>), the first run of a runner and its resumption with the
  outcome of the \<open>await\<close>. As asyncio has it, a runner that was cancelled before its
  first run never executes its body. A suspended runner is resumed with whatever the
  \<open>await\<close> yields, cancelled or not: a handler may raise \<open>CancelledError\<close> by itself,
  and the \<open>await\<close> of a cancelled runner returns or raises something else when the
  handler had finished before the cancellation or does not honour it. An event that is
  not enabled changes nothing.
\<close>

datatype event =
    Register string
  | Schedule task
  | Cancel string
  | Worker int
  | Begin nat int
  | Resume nat outcome int int
  | Start
  | ShutdownStop
  | ShutdownCancel
  | ShutdownSave

fun step :: "scheduler \<Rightarrow> event \<Rightarrow> scheduler" where
  "step s (Register ty) = register_handler s ty"
| "step s (Schedule t) = (case new_task s t of (r, s1) \<Rightarrow> snd (schedule_task s1 r))"
| "step s (Cancel tid) = snd (cancel_task s tid)"
| "step s (Worker now) = (if is_running s then worker_iteration s now else s)"
| "step s (Begin rid now) =
     (if r_phase (runners s rid) = Pending
      then (if r_cancel (runners s rid) then set_phase rid Done s
            else execute_task_begin s rid now)
      else s)"
| "step s (Resume rid out now_retry now_end) =
     (if r_phase (runners s rid) = Awaiting
      then execute_task_resume s rid out now_retry now_end
      else s)"
| "step s Start = start s"
| "step s ShutdownStop = shutdown_stop s"
| "step s ShutdownCancel = shutdown_cancel s"
| "step s ShutdownSave = shutdown_save s"

definition run :: "scheduler \<Rightarrow> event list \<Rightarrow> scheduler" where
  "run s evs = foldl step s evs"

section \<open>Basic facts\<close>

subsection \<open>The ready queue\<close>

lemma queue_min_None: "queue_min q = None \<longleftrightarrow> q = []"
  by (induction q) (auto split: option.splits)

lemma queue_min_in: "queue_min q = Some m \<Longrightarrow> m \<in> set q"
  by (induction q arbitrary: m) (auto split: option.splits if_splits)

lemma queue_min_le: "queue_min q = Some m \<Longrightarrow> e \<in> set q \<Longrightarrow> m \<le> e"
proof (induction q arbitrary: m)
  case Nil
  then show ?case by simp
next
  case (Cons x q)
  show ?case
  proof (cases "queue_min q")
    case None
    then have "q = []" by (simp add: queue_min_None)
    with Cons.prems show ?thesis by simp
  next
    case (Some m')
    from Cons.prems(1) Some have m: "m = (if x \<le> m' then x else m')" by simp
    from Cons.prems(2) have "e = x \<or> e \<in> set q" by simp
    then show ?thesis
    proof
      assume "e = x"
      with m show ?thesis by auto
    next
      assume "e \<in> set q"
      then have "m' \<le> e" by (rule Cons.IH [OF Some])
      with m show ?thesis by auto
    qed
  qed
qed

lemma queue_get_None: "queue_get q = None \<longleftrightarrow> q = []"
  by (cases "queue_min q") (auto simp: queue_get_def queue_min_None)

lemma queue_get_Some:
  "queue_get q = Some (m, q') \<Longrightarrow> m \<in> set q \<and> (\<forall>e \<in> set q. m \<le> e) \<and> q' = remove1 m q"
  by (auto simp: queue_get_def split: option.splits dest: queue_min_in queue_min_le)

lemma queue_get_keeps_larger:
  assumes "queue_get q = Some (m, q')" "a \<in> set q" "b \<in> set q" "a < b"
  shows "b \<in> set q'"
proof -
  from assms(1) have m: "m \<le> a" and q': "q' = remove1 m q"
    using assms(2) queue_get_Some by blast+
  from m assms(4) have "b \<noteq> m" by auto
  with assms(3) q' show ?thesis by simp
qed

subsection \<open>What the small operations leave alone\<close>

lemma save_tasks_fields [simp]:
  "objects (save_tasks s) = objects s" "next_object (save_tasks s) = next_object s"
  "tasks (save_tasks s) = tasks s" "task_queue (save_tasks s) = task_queue s"
  "max_concurrent_tasks (save_tasks s) = max_concurrent_tasks s"
  "running_tasks (save_tasks s) = running_tasks s" "runners (save_tasks s) = runners s"
  "next_runner (save_tasks s) = next_runner s" "handlers (save_tasks s) = handlers s"
  "is_running (save_tasks s) = is_running s" "callbacks (save_tasks s) = callbacks s"
  "handler_calls (save_tasks s) = handler_calls s"
  "timestamp (save_tasks s) = timestamp s"
  by (simp_all add: save_tasks_def)

lemma set_phase_fields [simp]:
  "objects (set_phase rid p s) = objects s" "next_object (set_phase rid p s) = next_object s"
  "tasks (set_phase rid p s) = tasks s" "task_queue (set_phase rid p s) = task_queue s"
  "max_concurrent_tasks (set_phase rid p s) = max_concurrent_tasks s"
  "running_tasks (set_phase rid p s) = running_tasks s"
  "next_runner (set_phase rid p s) = next_runner s" "handlers (set_phase rid p s) = handlers s"
  "is_running (set_phase rid p s) = is_running s" "storage (set_phase rid p s) = storage s"
  "callbacks (set_phase rid p s) = callbacks s"
  "handler_calls (set_phase rid p s) = handler_calls s"
  "timestamp (set_phase rid p s) = timestamp s"
  by (simp_all add: set_phase_def)

lemma set_phase_runners [simp]:
  "runners (set_phase rid p s) rid' =
     (if rid' = rid then (runners s rid)\<lparr>r_phase := p\<rparr> else runners s rid')"
  by (simp add: set_phase_def)

lemma cancel_runner_fields [simp]:
  "objects (cancel_runner rid s) = objects s"
  "next_object (cancel_runner rid s) = next_object s"
  "tasks (cancel_runner rid s) = tasks s" "task_queue (cancel_runner rid s) = task_queue s"
  "max_concurrent_tasks (cancel_runner rid s) = max_concurrent_tasks s"
  "running_tasks (cancel_runner rid s) = running_tasks s"
  "next_runner (cancel_runner rid s) = next_runner s"
  "handlers (cancel_runner rid s) = handlers s"
  "is_running (cancel_runner rid s) = is_running s" "storage (cancel_runner rid s) = storage s"
  "callbacks (cancel_runner rid s) = callbacks s"
  "handler_calls (cancel_runner rid s) = handler_calls s"
  "timestamp (cancel_runner rid s) = timestamp s"
  by (simp_all add: cancel_runner_def)

lemma cancel_runner_runners [simp]:
  "r_task (runners (cancel_runner rid s) rid') = r_task (runners s rid')"
  "r_phase (runners (cancel_runner rid s) rid') = r_phase (runners s rid')"
  "r_cancel (runners (cancel_runner rid s) rid') =
     (if rid' = rid \<and> r_phase (runners s rid) \<noteq> Done then True else r_cancel (runners s rid'))"
  by (simp_all add: cancel_runner_def)

lemma send_callback_fields [simp]:
  "objects (send_callback t s) = objects s" "next_object (send_callback t s) = next_object s"
  "tasks (send_callback t s) = tasks s" "task_queue (send_callback t s) = task_queue s"
  "max_concurrent_tasks (send_callback t s) = max_concurrent_tasks s"
  "running_tasks (send_callback t s) = running_tasks s"
  "runners (send_callback t s) = runners s" "next_runner (send_callback t s) = next_runner s"
  "handlers (send_callback t s) = handlers s" "is_running (send_callback t s) = is_running s"
  "storage (send_callback t s) = storage s"
  "handler_calls (send_callback t s) = handler_calls s"
  "timestamp (send_callback t s) = timestamp s"
  by (simp_all add: send_callback_def split: option.splits)

lemma cancel_all_fields [simp]:
  "next_object (cancel_all xs s) = next_object s"
  "tasks (cancel_all xs s) = tasks s" "task_queue (cancel_all xs s) = task_queue s"
  "max_concurrent_tasks (cancel_all xs s) = max_concurrent_tasks s"
  "running_tasks (cancel_all xs s) = running_tasks s"
  "next_runner (cancel_all xs s) = next_runner s"
  "handlers (cancel_all xs s) = handlers s"
  "is_running (cancel_all xs s) = is_running s" "storage (cancel_all xs s) = storage s"
  "callbacks (cancel_all xs s) = callbacks s"
  "handler_calls (cancel_all xs s) = handler_calls s"
  "timestamp (cancel_all xs s) = timestamp s"
  by (induction xs s rule: cancel_all.induct; simp add: Let_def split: option.splits)+

lemma run_Nil [simp]: "run s [] = s"
  by (simp add: run_def)

lemma run_Cons [simp]: "run s (e # evs) = run (step s e) evs"
  by (simp add: run_def)


lemma timestamp_step [simp]: "timestamp (step s ev) = timestamp s"
proof (cases ev)
  case (Resume rid out n1 n2)
  then show ?thesis
    by (cases out)
      (simp_all add: execute_task_resume_def finally_block_def except_block_def Let_def
        split: option.splits)
qed (simp_all add: register_handler_def new_task_def schedule_task_def cancel_task_def
      worker_iteration_def execute_task_begin_def start_def shutdown_stop_def
      shutdown_cancel_def shutdown_save_def Let_def split: option.splits prod.splits)

lemma timestamp_run [simp]: "timestamp (run s evs) = timestamp s"
  by (induction evs arbitrary: s) simp_all

subsection \<open>Association lists and the loop of shutdown\<close>



lemma cancel_all_runners [simp]:
  "r_task (runners (cancel_all xs s) rid) = r_task (runners s rid)"
  "r_phase (runners (cancel_all xs s) rid) = r_phase (runners s rid)"
  by (induction xs s rule: cancel_all.induct; simp add: Let_def split: option.splits)+

lemma cancel_all_cancel_mono:
  "r_cancel (runners s rid) \<Longrightarrow> r_cancel (runners (cancel_all xs s) rid)"
  by (induction xs s rule: cancel_all.induct) (simp_all add: Let_def split: option.splits)

lemma cancel_all_status_cancelled:
  "status (objects s r) = Cancelled \<Longrightarrow> status (objects (cancel_all xs s) r) = Cancelled"
  by (induction xs s rule: cancel_all.induct) (simp_all add: Let_def split: option.splits)

lemma cancel_all_retry [simp]:
  "retry_count (objects (cancel_all xs s) r) = retry_count (objects s r)"
  "max_retries (objects (cancel_all xs s) r) = max_retries (objects s r)"
  by (induction xs s rule: cancel_all.induct; simp add: Let_def split: option.splits)+

subsection \<open>Every operation removes queue entries least first\<close>

lemma worker_keeps_larger:
  assumes "a \<in> set (task_queue s)" "b \<in> set (task_queue s)" "a < b"
  shows "b \<in> set (task_queue (worker_iteration s now))"
proof (cases "queue_get (task_queue s)")
  case None
  then show ?thesis using assms by (simp add: worker_iteration_def)
next
  case (Some p)
  obtain k tid q' where p: "p = ((k, tid), q')" by (metis prod.exhaust)
  have "b \<in> set q'" using queue_get_keeps_larger [OF _ assms] Some p by simp
  then show ?thesis using assms(2) Some p
    by (simp add: worker_iteration_def queue_put_def Let_def split: option.splits)
qed

lemma step_keeps_larger:
  assumes "a \<in> set (task_queue s)" "b \<in> set (task_queue s)" "a < b"
  shows "b \<in> set (task_queue (step s ev))"
proof (cases ev)
  case (Worker now)
  then show ?thesis using worker_keeps_larger [OF assms] assms(2) by simp
next
  case (Resume rid out n1 n2)
  then show ?thesis using assms(2)
    by (cases out)
      (simp_all add: execute_task_resume_def finally_block_def except_block_def
        queue_put_def Let_def split: option.splits)
next
  case (Cancel tid)
  then show ?thesis using assms(2)
    by (simp add: cancel_task_def Let_def split: option.splits)
next
  case (Begin rid now)
  then show ?thesis using assms(2)
    by (simp add: execute_task_begin_def Let_def)
next
  case ShutdownCancel
  then show ?thesis using assms(2) by (simp add: shutdown_cancel_def)
qed (use assms(2) in \<open>simp_all add: register_handler_def new_task_def schedule_task_def
      queue_put_def start_def shutdown_stop_def shutdown_save_def Let_def\<close>)

lemma entry_le_iff:
  "((priority_item ts ta, ia) \<le> (priority_item ts tb, ib)) \<longleftrightarrow>
     (priority ta < priority tb \<or> priority ta = priority tb \<and>
       (ts (schedule_time ta) < ts (schedule_time tb) \<or>
        ts (schedule_time ta) = ts (schedule_time tb) \<and>
         (task_id ta < task_id tb \<or> task_id ta = task_id tb \<and> ia \<le> ib)))"
  by (auto simp: priority_item_def)

lemma worker_dispatch:
  assumes "int (length (running_tasks s)) < max_concurrent_tasks s"
    and "queue_get (task_queue s) = Some ((k, tid), q')"
    and "map_of (tasks s) tid = Some r"
    and "status (objects s r) \<noteq> Cancelled"
    and "schedule_time (objects s r) \<le> now"
  shows "worker_iteration s now =
           s\<lparr>task_queue := q',
             runners := (runners s)(next_runner s :=
                          \<lparr>r_task = r, r_phase = Pending, r_cancel = False\<rparr>),
             next_runner := Suc (next_runner s),
             running_tasks := AList.update tid (next_runner s) (running_tasks s)\<rparr>"
  using assms by (simp add: worker_iteration_def Let_def)

section \<open>The invariant of runs with fresh ids\<close>

text \<open>
  New tasks are as \<open>Task.__init__\<close> leaves them, and a run schedules each id at most
  once, never one that is already in the task set (the spec's invariant that ids are
  unique): \<open>fresh_ids used evs\<close>, where \<open>used\<close> lists the ids taken.
\<close>

definition fresh_task :: "task \<Rightarrow> bool" where
  "fresh_task t \<longleftrightarrow>
     status t = Scheduled \<and> retry_count t = 0 \<and> start_time t = None \<and> end_time t = None \<and>
     result t = JNull \<and> error t = None"

fun fresh_ids :: "string list \<Rightarrow> event list \<Rightarrow> bool" where
  "fresh_ids used [] = True"
| "fresh_ids used (Schedule t # evs) =
     (fresh_task t \<and> task_id t \<notin> set used \<and> fresh_ids (task_id t # used) evs)"
| "fresh_ids used (e # evs) = fresh_ids used evs"

text \<open>
  The parts of the invariant: the task set maps each id to an allocated task object
  with that id; every entry of \<open>running_tasks\<close> names a runner created for the task
  under that id; a runner that is not done is the one registered under its task's id,
  and its task is Cancelled when the runner has been cancelled, else Scheduled before
  its first run and Running after it; the queue holds at most one entry per id, each
  for a task that is Scheduled or Cancelled and has no runner that is not done; a
  Running task has a suspended runner registered; and \<open>running_tasks\<close> has at most
  \<open>max_concurrent_tasks\<close> entries. The part on Running tasks belongs to the \<open>strict\<close>
  invariant only: a handler that raises \<open>CancelledError\<close> by itself leaves its task
  Running with no runner.
\<close>

definition inv_tasks :: "scheduler \<Rightarrow> bool" where
  "inv_tasks s \<longleftrightarrow>
     distinct (map fst (tasks s)) \<and>
     (\<forall>tid r. map_of (tasks s) tid = Some r \<longrightarrow> r < next_object s \<and> task_id (objects s r) = tid)"

definition inv_running :: "scheduler \<Rightarrow> bool" where
  "inv_running s \<longleftrightarrow>
     distinct (map fst (running_tasks s)) \<and>
     (\<forall>tid rid. map_of (running_tasks s) tid = Some rid \<longrightarrow>
        rid < next_runner s \<and> map_of (tasks s) tid = Some (r_task (runners s rid)))"

definition runner_status :: "runner \<Rightarrow> status" where
  "runner_status rn =
     (if r_cancel rn then Cancelled else if r_phase rn = Pending then Scheduled else Running)"

definition inv_runners :: "scheduler \<Rightarrow> bool" where
  "inv_runners s \<longleftrightarrow>
     (\<forall>rid. r_phase (runners s rid) \<noteq> Done \<longrightarrow>
        map_of (running_tasks s) (task_id (objects s (r_task (runners s rid)))) = Some rid \<and>
        status (objects s (r_task (runners s rid))) = runner_status (runners s rid))"

definition inv_queue :: "scheduler \<Rightarrow> bool" where
  "inv_queue s \<longleftrightarrow>
     distinct (map snd (task_queue s)) \<and>
     (\<forall>k tid. (k, tid) \<in> set (task_queue s) \<longrightarrow>
        (\<exists>r. map_of (tasks s) tid = Some r \<and>
           (status (objects s r) = Scheduled \<or> status (objects s r) = Cancelled)) \<and>
        (\<forall>rid. map_of (running_tasks s) tid = Some rid \<longrightarrow> r_phase (runners s rid) = Done))"

definition inv_status :: "scheduler \<Rightarrow> bool" where
  "inv_status s \<longleftrightarrow>
     (\<forall>tid r. map_of (tasks s) tid = Some r \<and> status (objects s r) = Running \<longrightarrow>
        (\<exists>rid. map_of (running_tasks s) tid = Some rid \<and> r_phase (runners s rid) = Awaiting))"

definition inv_capacity :: "scheduler \<Rightarrow> bool" where
  "inv_capacity s \<longleftrightarrow> int (length (running_tasks s)) \<le> max 0 (max_concurrent_tasks s)"

definition invariant :: "bool \<Rightarrow> scheduler \<Rightarrow> bool" where
  "invariant strict s \<longleftrightarrow>
     inv_tasks s \<and> inv_running s \<and> inv_runners s \<and> inv_queue s \<and>
     (strict \<longrightarrow> inv_status s) \<and> inv_capacity s"

lemma invariant_cong:
  assumes "objects s' = objects s" "next_object s' = next_object s" "tasks s' = tasks s"
    "task_queue s' = task_queue s" "max_concurrent_tasks s' = max_concurrent_tasks s"
    "running_tasks s' = running_tasks s" "runners s' = runners s"
    "next_runner s' = next_runner s"
  shows "invariant c s' = invariant c s"
  by (simp add: invariant_def inv_tasks_def inv_running_def inv_runners_def inv_queue_def
      inv_status_def inv_capacity_def assms)

lemma invariant_init: "invariant c (TaskScheduler_init ts n None)"
  by (simp add: TaskScheduler_init_def load_tasks_def invariant_def inv_tasks_def
      inv_running_def inv_runners_def inv_queue_def inv_status_def inv_capacity_def)

lemma inv_tasks_inj:
  assumes "inv_tasks s" "map_of (tasks s) tid = Some r" "map_of (tasks s) tid' = Some r"
  shows "tid = tid'"
  using assms unfolding inv_tasks_def by metis

lemma inv_running_keys:
  assumes "inv_running s" "tid \<in> fst ` set (running_tasks s)"
  shows "tid \<in> fst ` set (tasks s)"
proof -
  from assms(2) obtain rid where "map_of (running_tasks s) tid = Some rid"
    by (metis domD dom_map_of_conv_image_fst)
  with assms(1) have "map_of (tasks s) tid = Some (r_task (runners s rid))"
    by (simp add: inv_running_def)
  then show ?thesis by (metis domI dom_map_of_conv_image_fst)
qed

lemma inv_queue_keys:
  assumes "inv_queue s" "tid \<in> snd ` set (task_queue s)"
  shows "tid \<in> fst ` set (tasks s)"
proof -
  from assms(2) obtain k where "(k, tid) \<in> set (task_queue s)" by auto
  with assms(1) obtain r where "map_of (tasks s) tid = Some r"
    unfolding inv_queue_def by blast
  then show ?thesis by (metis domI dom_map_of_conv_image_fst)
qed

lemma distinct_snd_remove1:
  assumes "distinct (map snd q)" "(k, tid) \<in> set q"
  shows "distinct (map snd (remove1 (k, tid) q))"
    and "tid \<notin> snd ` set (remove1 (k, tid) q)"
    and "set (remove1 (k, tid) q) \<subseteq> set q"
proof -
  from assms(1) have dq: "distinct q" by (rule distinct_map [THEN iffD1, THEN conjunct1])
  show "distinct (map snd (remove1 (k, tid) q))"
    using assms(1) by (induction q) (auto simp: image_iff dest: notin_set_remove1)
  show "set (remove1 (k, tid) q) \<subseteq> set q" by (rule set_remove1_subset)
  show "tid \<notin> snd ` set (remove1 (k, tid) q)"
  proof
    assume "tid \<in> snd ` set (remove1 (k, tid) q)"
    then obtain k' where k': "(k', tid) \<in> set (remove1 (k, tid) q)" by auto
    then have in_q: "(k', tid) \<in> set q" by (meson notin_set_remove1)
    from assms(1) have "inj_on snd (set q)" by (simp add: distinct_map)
    from inj_onD [OF this, of "(k', tid)" "(k, tid)"] in_q assms(2)
    have "(k', tid) = (k, tid)" by simp
    with k' dq show False by simp
  qed
qed

lemma inv_queue_task:
  assumes "inv_queue s" "(k, tid) \<in> set (task_queue s)"
  shows "\<exists>r. map_of (tasks s) tid = Some r \<and>
           (status (objects s r) = Scheduled \<or> status (objects s r) = Cancelled)"
  by (rule assms(1) [unfolded inv_queue_def, THEN conjunct2, rule_format, OF assms(2),
        THEN conjunct1])

lemma inv_queue_runner:
  assumes "inv_queue s" "(k, tid) \<in> set (task_queue s)" "map_of (running_tasks s) tid = Some rid"
  shows "r_phase (runners s rid) = Done"
  by (rule assms(1) [unfolded inv_queue_def, THEN conjunct2, rule_format, OF assms(2),
        THEN conjunct2, rule_format, OF assms(3)])

lemma inv_queue_distinct: "inv_queue s \<Longrightarrow> distinct (map snd (task_queue s))"
  by (simp add: inv_queue_def)

lemma inv_queueI:
  assumes "distinct (map snd (task_queue s))"
    and "\<And>k tid. (k, tid) \<in> set (task_queue s) \<Longrightarrow>
           \<exists>r. map_of (tasks s) tid = Some r \<and>
             (status (objects s r) = Scheduled \<or> status (objects s r) = Cancelled)"
    and "\<And>k tid rid. (k, tid) \<in> set (task_queue s) \<Longrightarrow>
           map_of (running_tasks s) tid = Some rid \<Longrightarrow> r_phase (runners s rid) = Done"
  shows "inv_queue s"
  unfolding inv_queue_def
proof (intro conjI allI impI)
  show "distinct (map snd (task_queue s))" by (rule assms(1))
next
  fix k tid assume "(k, tid) \<in> set (task_queue s)"
  then show "\<exists>r. map_of (tasks s) tid = Some r \<and>
      (status (objects s r) = Scheduled \<or> status (objects s r) = Cancelled)"
    by (rule assms(2))
next
  fix k tid rid
  assume "(k, tid) \<in> set (task_queue s)" "map_of (running_tasks s) tid = Some rid"
  then show "r_phase (runners s rid) = Done" by (rule assms(3))
qed

lemma inv_tasks_ref:
  assumes "inv_tasks s" "map_of (tasks s) tid = Some r"
  shows "r < next_object s" and "task_id (objects s r) = tid"
  using assms(1) [unfolded inv_tasks_def, THEN conjunct2, rule_format, OF assms(2)]
  by simp_all

lemma inv_running_entry:
  assumes "inv_running s" "map_of (running_tasks s) tid = Some rid"
  shows "rid < next_runner s" and "map_of (tasks s) tid = Some (r_task (runners s rid))"
  using assms(1) [unfolded inv_running_def, THEN conjunct2, rule_format, OF assms(2)]
  by simp_all

lemma inv_runners_live:
  assumes "inv_runners s" "r_phase (runners s rid) \<noteq> Done"
  shows "map_of (running_tasks s) (task_id (objects s (r_task (runners s rid)))) = Some rid"
    and "status (objects s (r_task (runners s rid))) = runner_status (runners s rid)"
  using assms(1) [unfolded inv_runners_def, rule_format, OF assms(2)]
  by simp_all

lemma inv_status_running:
  assumes "inv_status s" "map_of (tasks s) tid = Some r" "status (objects s r) = Running"
  shows "\<exists>rid. map_of (running_tasks s) tid = Some rid \<and> r_phase (runners s rid) = Awaiting"
  by (rule assms(1) [unfolded inv_status_def, THEN spec [of _ tid], THEN spec [of _ r], THEN mp])
    (simp add: assms)

text \<open>The task of a runner that is not done is the one the task set holds under its id.\<close>

lemma live_runner_task:
  assumes "inv_running s" "inv_runners s" "r_phase (runners s rid) \<noteq> Done"
  shows "map_of (tasks s) (task_id (objects s (r_task (runners s rid))))
           = Some (r_task (runners s rid))"
  using inv_running_entry(2) [OF assms(1) inv_runners_live(1) [OF assms(2,3)]] .

lemma live_runner_unique:
  assumes "inv_tasks s" "inv_running s" "inv_runners s"
    and "r_phase (runners s rid) \<noteq> Done" "r_phase (runners s rid') \<noteq> Done"
    and "r_task (runners s rid) = r_task (runners s rid')"
  shows "rid = rid'"
proof -
  have "Some rid = map_of (running_tasks s) (task_id (objects s (r_task (runners s rid))))"
    by (rule inv_runners_live(1) [OF assms(3,4), symmetric])
  also have "\<dots> = map_of (running_tasks s) (task_id (objects s (r_task (runners s rid'))))"
    by (simp only: assms(6))
  also have "\<dots> = Some rid'"
    by (rule inv_runners_live(1) [OF assms(3,5)])
  finally show ?thesis by simp
qed
lemma map_of_None_iff: "map_of xs k = None \<longleftrightarrow> k \<notin> fst ` set xs"
  by (rule map_of_eq_None_iff)

lemma step_Schedule:
  "step s (Schedule t) =
     save_tasks (s\<lparr>objects := (objects s)(next_object s := t),
                   next_object := Suc (next_object s),
                   tasks := AList.update (task_id t) (next_object s) (tasks s),
                   task_queue := task_queue s @ [(priority_item (timestamp s) t, task_id t)]\<rparr>)"
  by (simp add: new_task_def schedule_task_def queue_put_def Let_def)

lemma invariant_Schedule:
  assumes inv: "invariant c s" and st: "status t = Scheduled"
    and fresh: "task_id t \<notin> fst ` set (tasks s)"
  shows "invariant c (step s (Schedule t))"
proof -
  from inv have it: "inv_tasks s" and ir: "inv_running s" and irn: "inv_runners s"
    and iq: "inv_queue s" and ist0: "c \<longrightarrow> inv_status s" and ic: "inv_capacity s"
    by (simp_all add: invariant_def)
  define n where "n = next_object s"
  define s' where "s' = step s (Schedule t)"
  have ft: "tasks s' = AList.update (task_id t) n (tasks s)"
    by (simp add: s'_def n_def step_Schedule del: step.simps)
  have f: "objects s' = (objects s)(n := t)" "next_object s' = Suc n"
    "task_queue s' = task_queue s @ [(priority_item (timestamp s) t, task_id t)]"
    "running_tasks s' = running_tasks s" "runners s' = runners s"
    "next_runner s' = next_runner s" "max_concurrent_tasks s' = max_concurrent_tasks s"
    by (simp_all add: s'_def n_def step_Schedule del: step.simps)
  have none: "map_of (tasks s) (task_id t) = None"
    using fresh by (simp add: map_of_None_iff)
  have old: "r < n \<and> task_id (objects s r) = tid" if "map_of (tasks s) tid = Some r" for tid r
    using it that by (simp add: inv_tasks_def n_def)
  have m: "map_of (tasks s') tid = (if tid = task_id t then Some n else map_of (tasks s) tid)"
    for tid
    by (simp add: ft AList.update_conv')
  have not_running: "map_of (running_tasks s) (task_id t) = None"
    using inv_running_keys [OF ir] fresh by (auto simp: map_of_None_iff)
  have not_queued: "task_id t \<notin> snd ` set (task_queue s)"
    using inv_queue_keys [OF iq] fresh by auto
  have runner_ref: "r_task (runners s rid) < n" if "r_phase (runners s rid) \<noteq> Done" for rid
  proof -
    from irn that have "map_of (running_tasks s)
        (task_id (objects s (r_task (runners s rid)))) = Some rid"
      by (simp add: inv_runners_def)
    with ir have "map_of (tasks s) (task_id (objects s (r_task (runners s rid))))
        = Some (r_task (runners s rid))"
      by (simp add: inv_running_def)
    from old [OF this] show ?thesis by simp
  qed
  have 1: "inv_tasks s'"
    unfolding inv_tasks_def
  proof (intro conjI allI impI)
    show "distinct (map fst (tasks s'))"
      using it by (simp add: ft inv_tasks_def AList.distinct_update)
  next
    fix tid r assume a: "map_of (tasks s') tid = Some r"
    show "r < next_object s'" and "task_id (objects s' r) = tid"
      using a old [of tid r] by (auto simp: m f split: if_splits)
  qed
  have 2: "inv_running s'"
    unfolding inv_running_def
  proof (intro conjI allI impI)
    show "distinct (map fst (running_tasks s'))"
      using ir by (simp add: f inv_running_def)
  next
    fix tid rid assume a: "map_of (running_tasks s') tid = Some rid"
    then have b: "map_of (running_tasks s) tid = Some rid" by (simp add: f)
    with not_running have "tid \<noteq> task_id t" by auto
    with ir b show "rid < next_runner s'"
      and "map_of (tasks s') tid = Some (r_task (runners s' rid))"
      by (simp_all add: inv_running_def f m)
  qed
  have 3: "inv_runners s'"
    unfolding inv_runners_def
  proof (intro conjI allI impI)
    fix rid assume a: "r_phase (runners s' rid) \<noteq> Done"
    then have b: "r_phase (runners s rid) \<noteq> Done" by (simp add: f)
    from runner_ref [OF b] have ne: "r_task (runners s rid) \<noteq> n" by simp
    from irn b show "map_of (running_tasks s')
        (task_id (objects s' (r_task (runners s' rid)))) = Some rid"
      and "status (objects s' (r_task (runners s' rid))) = runner_status (runners s' rid)"
      using ne by (simp_all add: inv_runners_def f)
  qed
  have 4: "inv_queue s'"
    unfolding inv_queue_def
  proof (intro conjI allI impI)
    show "distinct (map snd (task_queue s'))"
      using iq not_queued by (simp add: f inv_queue_def)
  next
    fix k tid assume a: "(k, tid) \<in> set (task_queue s')"
    show "\<exists>r. map_of (tasks s') tid = Some r \<and>
        (status (objects s' r) = Scheduled \<or> status (objects s' r) = Cancelled)"
    proof (cases "tid = task_id t")
      case True
      then show ?thesis using st by (simp add: m f)
    next
      case False
      with a have "(k, tid) \<in> set (task_queue s)" by (auto simp: f)
      from inv_queue_task [OF iq this] obtain r where r: "map_of (tasks s) tid = Some r"
        "status (objects s r) = Scheduled \<or> status (objects s r) = Cancelled"
        by blast
      from old [OF r(1)] have "r \<noteq> n" by simp
      with r False show ?thesis by (simp add: m f)
    qed
  next
    fix k tid rid
    assume a: "(k, tid) \<in> set (task_queue s')"
      and b: "map_of (running_tasks s') tid = Some rid"
    from b not_running have "tid \<noteq> task_id t" by (auto simp: f)
    with a have "(k, tid) \<in> set (task_queue s)" by (auto simp: f)
    from inv_queue_runner [OF iq this] b show "r_phase (runners s' rid) = Done"
      by (simp add: f)
  qed
  have 5: "inv_status s'" if ist: "inv_status s" and strict: c
    unfolding inv_status_def
  proof (intro allI impI)
    fix tid r assume a: "map_of (tasks s') tid = Some r \<and> status (objects s' r) = Running"
    show "\<exists>rid. map_of (running_tasks s') tid = Some rid \<and> r_phase (runners s' rid) = Awaiting"
    proof (cases "tid = task_id t")
      case True
      with a st show ?thesis by (auto simp: m f)
    next
      case False
      with a have r: "map_of (tasks s) tid = Some r" by (simp add: m)
      from old [OF r] have "r \<noteq> n" by simp
      with a have "status (objects s r) = Running" by (simp add: f)
      from inv_status_running [OF ist r this] show ?thesis by (simp add: f)
    qed
  qed
  have 6: "inv_capacity s'"
    using ic by (simp add: inv_capacity_def f)
  from 1 2 3 4 5 6 ist0 show ?thesis by (auto simp: invariant_def s'_def)
qed
text \<open>Cancelling the task under \<open>tid\<close> together with the runner registered for it, as
  \<open>cancel_task\<close> and each round of the loop of \<open>shutdown\<close> do.\<close>

lemma invariant_cancel:
  assumes inv: "invariant c s" and t: "map_of (tasks s) tid = Some r"
    and fo: "objects s' = (objects s)(r := (objects s r)\<lparr>status := Cancelled\<rparr>)"
    and fr: "\<And>rid. r_task (runners s' rid) = r_task (runners s rid) \<and>
               r_phase (runners s' rid) = r_phase (runners s rid) \<and>
               (r_cancel (runners s' rid) \<longleftrightarrow> r_cancel (runners s rid) \<or>
                  map_of (running_tasks s) tid = Some rid \<and> r_phase (runners s rid) \<noteq> Done)"
    and f: "next_object s' = next_object s" "tasks s' = tasks s"
      "task_queue s' = task_queue s" "max_concurrent_tasks s' = max_concurrent_tasks s"
      "running_tasks s' = running_tasks s" "next_runner s' = next_runner s"
  shows "invariant c s'"
proof -
  from inv have it: "inv_tasks s" and ir: "inv_running s" and irn: "inv_runners s"
    and iq: "inv_queue s" and ist0: "c \<longrightarrow> inv_status s" and ic: "inv_capacity s"
    by (simp_all add: invariant_def)
  have tid: "task_id (objects s' x) = task_id (objects s x)" for x
    by (simp add: fo)
  have st: "status (objects s' x) = (if x = r then Cancelled else status (objects s x))" for x
    by (simp add: fo)
  have 1: "inv_tasks s'"
    using it by (simp add: inv_tasks_def f tid)
  have 2: "inv_running s'"
    using ir by (simp add: inv_running_def f fr)
  have 3: "inv_runners s'"
    unfolding inv_runners_def
  proof (intro allI impI)
    fix rid assume "r_phase (runners s' rid) \<noteq> Done"
    then have live: "r_phase (runners s rid) \<noteq> Done" by (simp add: fr)
    note reg = inv_runners_live(1) [OF irn live]
    note rst = inv_runners_live(2) [OF irn live]
    have a: "map_of (running_tasks s') (task_id (objects s' (r_task (runners s' rid)))) = Some rid"
      using reg by (simp add: f fr tid)
    have b: "status (objects s' (r_task (runners s' rid))) = runner_status (runners s' rid)"
    proof (cases "r_task (runners s rid) = r")
      case True
      with reg inv_tasks_ref(2) [OF it t] have "map_of (running_tasks s) tid = Some rid"
        by simp
      with live have "r_cancel (runners s' rid)" by (simp add: fr)
      with True show ?thesis by (simp add: st fr runner_status_def)
    next
      case False
      have "map_of (running_tasks s) tid \<noteq> Some rid"
      proof
        assume "map_of (running_tasks s) tid = Some rid"
        from inv_running_entry(2) [OF ir this] t False show False by simp
      qed
      then have "r_cancel (runners s' rid) = r_cancel (runners s rid)" by (simp add: fr)
      with False rst show ?thesis by (simp add: st fr runner_status_def)
    qed
    from a b show "map_of (running_tasks s')
        (task_id (objects s' (r_task (runners s' rid)))) = Some rid \<and>
        status (objects s' (r_task (runners s' rid))) = runner_status (runners s' rid)"
      by simp
  qed
  have 4: "inv_queue s'"
  proof (rule inv_queueI)
    show "distinct (map snd (task_queue s'))"
      using inv_queue_distinct [OF iq] by (simp add: f)
  next
    fix k tid' assume "(k, tid') \<in> set (task_queue s')"
    then have "(k, tid') \<in> set (task_queue s)" by (simp add: f)
    from inv_queue_task [OF iq this]
    show "\<exists>r. map_of (tasks s') tid' = Some r \<and>
        (status (objects s' r) = Scheduled \<or> status (objects s' r) = Cancelled)"
      by (auto simp: f st)
  next
    fix k tid' rid
    assume "(k, tid') \<in> set (task_queue s')" "map_of (running_tasks s') tid' = Some rid"
    then have "(k, tid') \<in> set (task_queue s)" "map_of (running_tasks s) tid' = Some rid"
      by (simp_all add: f)
    from inv_queue_runner [OF iq this] show "r_phase (runners s' rid) = Done"
      by (simp add: fr)
  qed
  have 5: "inv_status s'" if ist: "inv_status s" and strict: c
    unfolding inv_status_def
  proof (intro allI impI)
    fix tid' r' assume a: "map_of (tasks s') tid' = Some r' \<and> status (objects s' r') = Running"
    then have "map_of (tasks s) tid' = Some r'" "status (objects s r') = Running"
      by (auto simp: f st split: if_splits)
    from inv_status_running [OF ist this]
    show "\<exists>rid. map_of (running_tasks s') tid' = Some rid \<and> r_phase (runners s' rid) = Awaiting"
      by (simp add: f fr)
  qed
  have 6: "inv_capacity s'"
    using ic by (simp add: inv_capacity_def f)
  from 1 2 3 4 5 6 ist0 show ?thesis by (auto simp: invariant_def)
qed

lemma invariant_Cancel:
  assumes inv: "invariant c s"
  shows "invariant c (step s (Cancel tid))"
proof (cases "fst (cancel_task s tid)")
  case False
  then have "snd (cancel_task s tid) = s"
    by (auto simp: cancel_task_def Let_def split: option.splits)
  with inv show ?thesis by simp
next
  case True
  then obtain r where r: "map_of (tasks s) tid = Some r"
    and st: "status (objects s r) = Scheduled \<or> status (objects s r) = Running"
    by (auto simp: cancel_task_def Let_def split: option.splits if_splits)
  define s' where "s' = step s (Cancel tid)"
  have "invariant c s'"
  proof (rule invariant_cancel [OF inv r])
    show "objects s' = (objects s)(r := (objects s r)\<lparr>status := Cancelled\<rparr>)"
      using r st by (auto simp: s'_def cancel_task_def Let_def split: option.splits)
    show "r_task (runners s' rid) = r_task (runners s rid) \<and>
        r_phase (runners s' rid) = r_phase (runners s rid) \<and>
        (r_cancel (runners s' rid) \<longleftrightarrow> r_cancel (runners s rid) \<or>
           map_of (running_tasks s) tid = Some rid \<and> r_phase (runners s rid) \<noteq> Done)" for rid
      using r st by (auto simp: s'_def cancel_task_def Let_def split: option.splits)
    show "next_object s' = next_object s" "tasks s' = tasks s"
      "task_queue s' = task_queue s" "max_concurrent_tasks s' = max_concurrent_tasks s"
      "running_tasks s' = running_tasks s" "next_runner s' = next_runner s"
      using r st by (auto simp: s'_def cancel_task_def Let_def split: option.splits)
  qed
  then show ?thesis by (simp add: s'_def)
qed

lemma invariant_cancel_all:
  "invariant c s \<Longrightarrow> set xs \<subseteq> set (running_tasks s) \<Longrightarrow> invariant c (cancel_all xs s)"
proof (induction xs arbitrary: s)
  case Nil
  then show ?case by simp
next
  case (Cons x xs)
  obtain tid rid where x: "x = (tid, rid)" by (cases x)
  from Cons.prems(1) have ir: "inv_running s" by (simp add: invariant_def)
  from Cons.prems(2) have mem: "(tid, rid) \<in> set (running_tasks s)" by (simp add: x)
  from ir have "distinct (map fst (running_tasks s))" by (simp add: inv_running_def)
  with mem have reg: "map_of (running_tasks s) tid = Some rid" by simp
  from inv_running_entry(2) [OF ir reg] obtain r where r: "map_of (tasks s) tid = Some r"
    by simp
  define s2 where "s2 = (cancel_runner rid s)\<lparr>objects :=
      (objects (cancel_runner rid s))(r := (objects (cancel_runner rid s) r)\<lparr>status := Cancelled\<rparr>)\<rparr>"
  have step: "cancel_all (x # xs) s = cancel_all xs s2"
    by (simp add: x r s2_def Let_def)
  have "invariant c s2"
  proof (rule invariant_cancel [OF Cons.prems(1) r])
    show "r_task (runners s2 rid') = r_task (runners s rid') \<and>
        r_phase (runners s2 rid') = r_phase (runners s rid') \<and>
        (r_cancel (runners s2 rid') \<longleftrightarrow> r_cancel (runners s rid') \<or>
           map_of (running_tasks s) tid = Some rid' \<and> r_phase (runners s rid') \<noteq> Done)" for rid'
      using reg by (auto simp: s2_def)
  qed (simp_all add: s2_def)
  moreover have "set xs \<subseteq> set (running_tasks s2)"
    using Cons.prems(2) by (simp add: s2_def)
  ultimately have "invariant c (cancel_all xs s2)" by (rule Cons.IH)
  then show ?case by (simp only: step)
qed

lemma invariant_ShutdownCancel: "invariant c s \<Longrightarrow> invariant c (step s ShutdownCancel)"
  by (simp add: shutdown_cancel_def invariant_cancel_all)
lemma length_update_le: "length (AList.update k v al) \<le> Suc (length al)"
  by (induction al) auto

lemma inv_queue_subqueue:
  assumes iq: "inv_queue s" and d: "distinct (map snd q)" and sub: "set q \<subseteq> set (task_queue s)"
    and f: "tasks s' = tasks s" "objects s' = objects s" "running_tasks s' = running_tasks s"
      "runners s' = runners s" "task_queue s' = q"
  shows "inv_queue s'"
proof (rule inv_queueI)
  show "distinct (map snd (task_queue s'))" using d by (simp add: f)
next
  fix k tid assume "(k, tid) \<in> set (task_queue s')"
  with sub have "(k, tid) \<in> set (task_queue s)" by (auto simp: f)
  from inv_queue_task [OF iq this]
  show "\<exists>r. map_of (tasks s') tid = Some r \<and>
      (status (objects s' r) = Scheduled \<or> status (objects s' r) = Cancelled)"
    by (simp add: f)
next
  fix k tid rid
  assume "(k, tid) \<in> set (task_queue s')" "map_of (running_tasks s') tid = Some rid"
  with sub have "(k, tid) \<in> set (task_queue s)" "map_of (running_tasks s) tid = Some rid"
    by (auto simp: f)
  from inv_queue_runner [OF iq this] show "r_phase (runners s' rid) = Done"
    by (simp add: f)
qed

lemma invariant_queue_only:
  assumes inv: "invariant c s" and iq: "inv_queue s'"
    and f: "objects s' = objects s" "next_object s' = next_object s" "tasks s' = tasks s"
      "max_concurrent_tasks s' = max_concurrent_tasks s"
      "running_tasks s' = running_tasks s" "runners s' = runners s"
      "next_runner s' = next_runner s"
  shows "invariant c s'"
proof -
  from inv have it: "inv_tasks s" and ir: "inv_running s" and irn: "inv_runners s"
    and ist0: "c \<longrightarrow> inv_status s" and ic: "inv_capacity s"
    by (simp_all add: invariant_def)
  have "inv_tasks s'" using it unfolding inv_tasks_def f .
  moreover have "inv_running s'" using ir unfolding inv_running_def f .
  moreover have "inv_runners s'" using irn unfolding inv_runners_def f .
  moreover have "c \<longrightarrow> inv_status s'" using ist0 unfolding inv_status_def f .
  moreover have "inv_capacity s'" using ic unfolding inv_capacity_def f .
  ultimately show ?thesis using iq by (simp add: invariant_def)
qed

lemma invariant_worker_drop:
  assumes inv: "invariant c s" and g: "queue_get (task_queue s) = Some ((k, tid), q')"
  shows "invariant c (s\<lparr>task_queue := q'\<rparr>)"
proof -
  from inv have iq: "inv_queue s" by (simp add: invariant_def)
  from queue_get_Some [OF g] have m: "(k, tid) \<in> set (task_queue s)"
    and q': "q' = remove1 (k, tid) (task_queue s)"
    by simp_all
  note d = distinct_snd_remove1 [OF inv_queue_distinct [OF iq] m, folded q']
  have "inv_queue (s\<lparr>task_queue := q'\<rparr>)"
    by (rule inv_queue_subqueue [OF iq d(1) d(3)]) simp_all
  then show ?thesis by (rule invariant_queue_only [OF inv]) simp_all
qed

lemma invariant_worker_requeue:
  assumes inv: "invariant c s" and g: "queue_get (task_queue s) = Some ((k, tid), q')"
  shows "invariant c (s\<lparr>task_queue := queue_put q' (k', tid)\<rparr>)"
proof -
  from inv have iq: "inv_queue s" by (simp add: invariant_def)
  from queue_get_Some [OF g] have m: "(k, tid) \<in> set (task_queue s)"
    and q': "q' = remove1 (k, tid) (task_queue s)"
    by simp_all
  note d = distinct_snd_remove1 [OF inv_queue_distinct [OF iq] m, folded q']
  have "inv_queue (s\<lparr>task_queue := queue_put q' (k', tid)\<rparr>)"
  proof (rule inv_queueI)
    show "distinct (map snd (task_queue (s\<lparr>task_queue := queue_put q' (k', tid)\<rparr>)))"
      using d(1,2) by (simp add: queue_put_def)
  next
    fix k'' tid' assume "(k'', tid') \<in> set (task_queue (s\<lparr>task_queue := queue_put q' (k', tid)\<rparr>))"
    then have "(k'', tid') \<in> set (task_queue s) \<or> tid' = tid"
      using d(3) by (auto simp: queue_put_def)
    then have "\<exists>k0. (k0, tid') \<in> set (task_queue s)" using m by blast
    then obtain k0 where "(k0, tid') \<in> set (task_queue s)" by blast
    from inv_queue_task [OF iq this]
    show "\<exists>r. map_of (tasks (s\<lparr>task_queue := queue_put q' (k', tid)\<rparr>)) tid' = Some r \<and>
        (status (objects (s\<lparr>task_queue := queue_put q' (k', tid)\<rparr>) r) = Scheduled \<or>
         status (objects (s\<lparr>task_queue := queue_put q' (k', tid)\<rparr>) r) = Cancelled)"
      by simp
  next
    fix k'' tid' rid
    assume "(k'', tid') \<in> set (task_queue (s\<lparr>task_queue := queue_put q' (k', tid)\<rparr>))"
      and r: "map_of (running_tasks (s\<lparr>task_queue := queue_put q' (k', tid)\<rparr>)) tid' = Some rid"
    then have "(k'', tid') \<in> set (task_queue s) \<or> tid' = tid"
      using d(3) by (auto simp: queue_put_def)
    then have "\<exists>k0. (k0, tid') \<in> set (task_queue s)" using m by blast
    then obtain k0 where "(k0, tid') \<in> set (task_queue s)" by blast
    from inv_queue_runner [OF iq this] r
    show "r_phase (runners (s\<lparr>task_queue := queue_put q' (k', tid)\<rparr>) rid) = Done"
      by simp
  qed
  then show ?thesis by (rule invariant_queue_only [OF inv]) simp_all
qed

lemma invariant_worker_dispatch:
  assumes inv: "invariant c s" and g: "queue_get (task_queue s) = Some ((k, tid), q')"
    and t: "map_of (tasks s) tid = Some r" and nc: "status (objects s r) \<noteq> Cancelled"
    and cap: "\<not> max_concurrent_tasks s \<le> int (length (running_tasks s))"
  shows "invariant c (s\<lparr>task_queue := q',
           runners := (runners s)(next_runner s :=
                        \<lparr>r_task = r, r_phase = Pending, r_cancel = False\<rparr>),
           next_runner := Suc (next_runner s),
           running_tasks := AList.update tid (next_runner s) (running_tasks s)\<rparr>)"
    (is "invariant c ?s'")
proof -
  from inv have it: "inv_tasks s" and ir: "inv_running s" and irn: "inv_runners s"
    and iq: "inv_queue s" and ist0: "c \<longrightarrow> inv_status s" and ic: "inv_capacity s"
    by (simp_all add: invariant_def)
  define n where "n = next_runner s"
  define s' where "s' = ?s'"
  have f: "objects s' = objects s" "next_object s' = next_object s" "tasks s' = tasks s"
    "task_queue s' = q'" "max_concurrent_tasks s' = max_concurrent_tasks s"
    "next_runner s' = Suc n"
    by (simp_all add: s'_def n_def)
  have frt: "running_tasks s' = AList.update tid n (running_tasks s)"
    by (simp add: s'_def n_def)
  have rn: "runners s' rid = (if rid = n then \<lparr>r_task = r, r_phase = Pending, r_cancel = False\<rparr>
      else runners s rid)" for rid
    by (simp add: s'_def n_def)
  have m: "map_of (running_tasks s') tid' = (if tid' = tid then Some n else map_of (running_tasks s) tid')"
    for tid'
    by (simp add: frt AList.update_conv')
  from queue_get_Some [OF g] have mem: "(k, tid) \<in> set (task_queue s)"
    and q': "q' = remove1 (k, tid) (task_queue s)"
    by simp_all
  note d = distinct_snd_remove1 [OF inv_queue_distinct [OF iq] mem, folded q']
  from inv_queue_task [OF iq mem] t nc have sched: "status (objects s r) = Scheduled"
    by auto
  have old_runner: "rid < n" if "map_of (running_tasks s) tid' = Some rid" for tid' rid
    using inv_running_entry(1) [OF ir that] by (simp add: n_def)
  have live_old: "rid < n" if "r_phase (runners s rid) \<noteq> Done" for rid
    using old_runner [OF inv_runners_live(1) [OF irn that]] .
  have reg_done: "r_phase (runners s rid) = Done" if "map_of (running_tasks s) tid = Some rid" for rid
    using inv_queue_runner [OF iq mem that] .
  have 1: "inv_tasks s'"
    using it by (simp add: inv_tasks_def f)
  have 2: "inv_running s'"
    unfolding inv_running_def
  proof (intro conjI allI impI)
    show "distinct (map fst (running_tasks s'))"
      using ir by (simp add: frt inv_running_def AList.distinct_update)
  next
    fix tid' rid assume a: "map_of (running_tasks s') tid' = Some rid"
    show "rid < next_runner s'"
      using a old_runner [of tid' rid] by (auto simp: m f split: if_splits)
    show "map_of (tasks s') tid' = Some (r_task (runners s' rid))"
    proof (cases "tid' = tid")
      case True
      with a t show ?thesis by (simp add: m f rn)
    next
      case False
      with a have b: "map_of (running_tasks s) tid' = Some rid" by (simp add: m)
      from old_runner [OF b] have "rid \<noteq> n" by simp
      with inv_running_entry(2) [OF ir b] show ?thesis by (simp add: f rn)
    qed
  qed
  have 3: "inv_runners s'"
    unfolding inv_runners_def
  proof (intro allI impI)
    fix rid assume a: "r_phase (runners s' rid) \<noteq> Done"
    show "map_of (running_tasks s') (task_id (objects s' (r_task (runners s' rid)))) = Some rid \<and>
        status (objects s' (r_task (runners s' rid))) = runner_status (runners s' rid)"
    proof (cases "rid = n")
      case True
      then show ?thesis
        using inv_tasks_ref(2) [OF it t] sched by (simp add: rn f m runner_status_def)
    next
      case False
      with a have live: "r_phase (runners s rid) \<noteq> Done" by (simp add: rn)
      note reg = inv_runners_live(1) [OF irn live]
      have "task_id (objects s (r_task (runners s rid))) \<noteq> tid"
      proof
        assume "task_id (objects s (r_task (runners s rid))) = tid"
        with reg have "map_of (running_tasks s) tid = Some rid" by simp
        from reg_done [OF this] live show False by simp
      qed
      with False reg inv_runners_live(2) [OF irn live] show ?thesis
        by (simp add: rn f m)
    qed
  qed
  have 4: "inv_queue s'"
  proof (rule inv_queueI)
    show "distinct (map snd (task_queue s'))" using d(1) by (simp add: f)
  next
    fix k' tid' assume "(k', tid') \<in> set (task_queue s')"
    with d(3) have "(k', tid') \<in> set (task_queue s)" by (auto simp: f)
    from inv_queue_task [OF iq this]
    show "\<exists>r. map_of (tasks s') tid' = Some r \<and>
        (status (objects s' r) = Scheduled \<or> status (objects s' r) = Cancelled)"
      by (simp add: f)
  next
    fix k' tid' rid
    assume a: "(k', tid') \<in> set (task_queue s')" and b: "map_of (running_tasks s') tid' = Some rid"
    from a d(2) have ne: "tid' \<noteq> tid" by (auto simp: f image_iff)
    from a d(3) have c: "(k', tid') \<in> set (task_queue s)" by (auto simp: f)
    from b ne have e: "map_of (running_tasks s) tid' = Some rid" by (simp add: m)
    from old_runner [OF e] have "rid \<noteq> n" by simp
    with inv_queue_runner [OF iq c e] show "r_phase (runners s' rid) = Done"
      by (simp add: rn)
  qed
  have 5: "inv_status s'" if ist: "inv_status s" and strict: c
    unfolding inv_status_def
  proof (intro allI impI)
    fix tid' r' assume a: "map_of (tasks s') tid' = Some r' \<and> status (objects s' r') = Running"
    then have b: "map_of (tasks s) tid' = Some r'" "status (objects s r') = Running"
      by (simp_all add: f)
    have ne: "tid' \<noteq> tid" using b t sched by auto
    from inv_status_running [OF ist b] obtain rid where
      c: "map_of (running_tasks s) tid' = Some rid" "r_phase (runners s rid) = Awaiting"
      by blast
    from old_runner [OF c(1)] have "rid \<noteq> n" by simp
    with c ne show "\<exists>rid. map_of (running_tasks s') tid' = Some rid \<and>
        r_phase (runners s' rid) = Awaiting"
      by (simp add: m rn)
  qed
  have 6: "inv_capacity s'"
    using cap length_update_le [of tid n "running_tasks s"]
    by (simp add: inv_capacity_def f frt)
  from 1 2 3 4 5 6 ist0 show ?thesis by (auto simp: invariant_def s'_def)
qed

lemma invariant_worker: "invariant c s \<Longrightarrow> invariant c (worker_iteration s now)"
  by (auto simp: worker_iteration_def Let_def invariant_worker_drop invariant_worker_requeue
      invariant_worker_dispatch split: option.splits)

lemma invariant_Worker: "invariant c s \<Longrightarrow> invariant c (step s (Worker now))"
  by (simp add: invariant_worker)
text \<open>A step of a runner that is not done: it rewrites its own task object (keeping the
  id), moves to \<open>Awaiting\<close> with the task Running, or to \<open>Done\<close> with the task not
  Running, as the strict invariant asks; it may delete the entry of its task's id from
  \<open>running_tasks\<close> and, when it does and leaves the task Scheduled, put one entry for the
  id into the queue.\<close>

lemma invariant_runner_step:
  assumes inv: "invariant c s" and live: "r_phase (runners s rid) \<noteq> Done"
    and r: "r = r_task (runners s rid)" and tid: "tid = task_id (objects s r)"
    and fo: "objects s' = (objects s)(r := t')" and idt: "task_id t' = tid"
    and frn: "runners s' = (runners s)(rid := (runners s rid)\<lparr>r_phase := p'\<rparr>)"
    and ph: "p' = Done \<and> (c \<longrightarrow> status t' \<noteq> Running) \<or>
             p' = Awaiting \<and> status t' = Running \<and> \<not> r_cancel (runners s rid) \<and>
               running_tasks s' = running_tasks s"
    and frt: "running_tasks s' = running_tasks s \<or>
              running_tasks s' = AList.delete tid (running_tasks s)"
    and fq: "task_queue s' = task_queue s \<or>
             (\<exists>k. task_queue s' = task_queue s @ [(k, tid)]) \<and> status t' = Scheduled \<and>
               running_tasks s' = AList.delete tid (running_tasks s)"
    and f: "next_object s' = next_object s" "tasks s' = tasks s"
      "max_concurrent_tasks s' = max_concurrent_tasks s" "next_runner s' = next_runner s"
  shows "invariant c s'"
proof -
  from inv have it: "inv_tasks s" and ir: "inv_running s" and irn: "inv_runners s"
    and iq: "inv_queue s" and ist0: "c \<longrightarrow> inv_status s" and ic: "inv_capacity s"
    by (simp_all add: invariant_def)
  have reg: "map_of (running_tasks s) tid = Some rid"
    using inv_runners_live(1) [OF irn live] by (simp add: r tid)
  have tr: "map_of (tasks s) tid = Some r"
    using live_runner_task [OF ir irn live] by (simp add: r tid)
  have ids: "task_id (objects s' x) = task_id (objects s x)" for x
    by (simp add: fo idt tid)
  have obj: "objects s' x = objects s x" if "x \<noteq> r" for x
    using that by (simp add: fo)
  have rn: "r_task (runners s' x) = r_task (runners s x)"
    "r_cancel (runners s' x) = r_cancel (runners s x)"
    "r_phase (runners s' x) = (if x = rid then p' else r_phase (runners s x))" for x
    by (simp_all add: frn)
  have other_ref: "r' \<noteq> r" if "map_of (tasks s) tid' = Some r'" "tid' \<noteq> tid" for tid' r'
    using inv_tasks_ref(2) [OF it that(1)] that(2) by (auto simp: tid)
  have m: "map_of (running_tasks s') tid' = map_of (running_tasks s) tid'" if "tid' \<noteq> tid" for tid'
    using frt that by (auto simp: AList.delete_conv')
  have msub: "map_of (running_tasks s) tid' = Some x"
    if "map_of (running_tasks s') tid' = Some x" for tid' x
    using frt that by (auto simp: AList.delete_conv' split: if_splits)
  have not_queued: "tid \<notin> snd ` set (task_queue s)"
  proof
    assume "tid \<in> snd ` set (task_queue s)"
    then obtain k where "(k, tid) \<in> set (task_queue s)" by force
    from inv_queue_runner [OF iq this reg] live show False by simp
  qed
  have appended: "status t' = Scheduled \<and> running_tasks s' = AList.delete tid (running_tasks s)"
    if "(k, tid) \<in> set (task_queue s')" for k
  proof -
    have "task_queue s' \<noteq> task_queue s"
    proof
      assume "task_queue s' = task_queue s"
      with that have "tid \<in> snd ` set (task_queue s)" by force
      with not_queued show False by simp
    qed
    with fq show ?thesis by blast
  qed
  have old_entry: "(k, tid') \<in> set (task_queue s)"
    if "(k, tid') \<in> set (task_queue s')" "tid' \<noteq> tid" for k tid'
    using fq that by auto
  have don: "r_phase (runners s' x) = Done" if "r_phase (runners s x) = Done" for x
    using that live by (auto simp: rn)
  have 1: "inv_tasks s'"
    using it by (simp add: inv_tasks_def f ids)
  have 2: "inv_running s'"
    unfolding inv_running_def
  proof (intro conjI allI impI)
    show "distinct (map fst (running_tasks s'))"
      using ir frt by (auto simp: inv_running_def AList.distinct_delete)
  next
    fix tid' x assume "map_of (running_tasks s') tid' = Some x"
    from inv_running_entry [OF ir msub [OF this]]
    show "x < next_runner s'" and "map_of (tasks s') tid' = Some (r_task (runners s' x))"
      by (simp_all add: f rn)
  qed
  have 3: "inv_runners s'"
    unfolding inv_runners_def
  proof (intro allI impI)
    fix x assume a: "r_phase (runners s' x) \<noteq> Done"
    show "map_of (running_tasks s') (task_id (objects s' (r_task (runners s' x)))) = Some x \<and>
        status (objects s' (r_task (runners s' x))) = runner_status (runners s' x)"
    proof (cases "x = rid")
      case True
      with a ph have "p' = Awaiting" "status t' = Running" "\<not> r_cancel (runners s rid)"
        "running_tasks s' = running_tasks s"
        by (auto simp: rn)
      with True reg show ?thesis
        by (simp add: rn fo r [symmetric] idt runner_status_def)
    next
      case False
      with a have lx: "r_phase (runners s x) \<noteq> Done" by (simp add: rn)
      have ne: "r_task (runners s x) \<noteq> r"
        using live_runner_unique [OF it ir irn lx live] False by (auto simp: r)
      have "task_id (objects s (r_task (runners s x))) \<noteq> tid"
        using inv_runners_live(1) [OF irn lx] reg False by auto
      with inv_runners_live [OF irn lx] False ne show ?thesis
        by (simp add: rn ids obj m runner_status_def)
    qed
  qed
  have 4: "inv_queue s'"
  proof (rule inv_queueI)
    show "distinct (map snd (task_queue s'))"
      using fq inv_queue_distinct [OF iq] not_queued by auto
  next
    fix k tid' assume a: "(k, tid') \<in> set (task_queue s')"
    show "\<exists>r. map_of (tasks s') tid' = Some r \<and>
        (status (objects s' r) = Scheduled \<or> status (objects s' r) = Cancelled)"
    proof (cases "tid' = tid")
      case True
      with a appended have "status t' = Scheduled" by blast
      with True tr show ?thesis by (simp add: f fo)
    next
      case False
      with a have b: "(k, tid') \<in> set (task_queue s)" by (rule old_entry)
      from inv_queue_task [OF iq b] obtain r' where r': "map_of (tasks s) tid' = Some r'"
        "status (objects s r') = Scheduled \<or> status (objects s r') = Cancelled"
        by blast
      from other_ref [OF r'(1) False] r' show ?thesis by (simp add: f obj)
    qed
  next
    fix k tid' x
    assume a: "(k, tid') \<in> set (task_queue s')" and b: "map_of (running_tasks s') tid' = Some x"
    show "r_phase (runners s' x) = Done"
    proof (cases "tid' = tid")
      case True
      with a appended have "running_tasks s' = AList.delete tid (running_tasks s)" by blast
      with b True show ?thesis by (simp add: AList.delete_conv')
    next
      case False
      with a have c: "(k, tid') \<in> set (task_queue s)" by (rule old_entry)
      from inv_queue_runner [OF iq c msub [OF b]] show ?thesis by (rule don)
    qed
  qed
  have 5: "inv_status s'" if ist: "inv_status s" and strict: c
    unfolding inv_status_def
  proof (intro allI impI)
    fix tid' r' assume a: "map_of (tasks s') tid' = Some r' \<and> status (objects s' r') = Running"
    then have tr': "map_of (tasks s) tid' = Some r'" by (simp add: f)
    show "\<exists>x. map_of (running_tasks s') tid' = Some x \<and> r_phase (runners s' x) = Awaiting"
    proof (cases "r' = r")
      case True
      with a have "status t' = Running" by (simp add: fo)
      with ph strict have p: "p' = Awaiting" "running_tasks s' = running_tasks s" by auto
      from True tr tr' have "tid' = tid" using inv_tasks_inj [OF it] by blast
      with p reg show ?thesis by (simp add: rn)
    next
      case False
      with a have run: "status (objects s r') = Running" by (simp add: obj)
      from False tr tr' have ne: "tid' \<noteq> tid" by auto
      from inv_status_running [OF ist tr' run] obtain x where
        x: "map_of (running_tasks s) tid' = Some x" "r_phase (runners s x) = Awaiting"
        by blast
      have "x \<noteq> rid"
      proof
        assume "x = rid"
        with inv_running_entry(2) [OF ir x(1)] tr' False show False by (simp add: r)
      qed
      with x ne show ?thesis by (simp add: m rn)
    qed
  qed
  have "length (running_tasks s') \<le> length (running_tasks s)"
    using frt AList.length_delete_le [of tid "running_tasks s"] by auto
  then have 6: "inv_capacity s'"
    using ic by (simp add: inv_capacity_def f)
  from 1 2 3 4 5 6 ist0 show ?thesis by (auto simp: invariant_def)
qed
lemma delete_absent: "k \<notin> fst ` set al \<Longrightarrow> AList.delete k al = al"
  by (rule AList.delete_id)

lemma resume_effect:
  fixes s rid out now_retry now_end
  defines "r \<equiv> r_task (runners s rid)"
  defines "s' \<equiv> execute_task_resume s rid out now_retry now_end"
  shows "\<exists>t'. objects s' = (objects s)(r := t') \<and> task_id t' = task_id (objects s r) \<and>
      status t' = (case out of Returned v \<Rightarrow> Completed
                   | CancelledError \<Rightarrow> status (objects s r)
                   | _ \<Rightarrow> if retry_count (objects s r) < max_retries (objects s r)
                          then Scheduled else Failed) \<and>
      (task_queue s' = task_queue s \<or>
       task_queue s' = task_queue s @ [(priority_item (timestamp s) t', task_id (objects s r))] \<and>
         status t' = Scheduled)"
    and "running_tasks s' = AList.delete (task_id (objects s r)) (running_tasks s)"
    and "runners s' = (runners s)(rid := (runners s rid)\<lparr>r_phase := Done\<rparr>)"
    and "next_object s' = next_object s" "tasks s' = tasks s"
      "max_concurrent_tasks s' = max_concurrent_tasks s" "next_runner s' = next_runner s"
proof -
  show "running_tasks s' = AList.delete (task_id (objects s r)) (running_tasks s)"
    unfolding s'_def r_def
    by (cases out)
      (auto simp: execute_task_resume_def finally_block_def except_block_def Let_def
        delete_absent split: option.splits)
  show "runners s' = (runners s)(rid := (runners s rid)\<lparr>r_phase := Done\<rparr>)"
    unfolding s'_def r_def
    by (cases out)
      (auto simp: execute_task_resume_def finally_block_def except_block_def Let_def
        set_phase_def split: option.splits)
  show "next_object s' = next_object s" "tasks s' = tasks s"
    "max_concurrent_tasks s' = max_concurrent_tasks s" "next_runner s' = next_runner s"
    unfolding s'_def r_def
    by (cases out;
        simp add: execute_task_resume_def finally_block_def except_block_def Let_def
          split: option.splits)+
  show "\<exists>t'. objects s' = (objects s)(r := t') \<and> task_id t' = task_id (objects s r) \<and>
      status t' = (case out of Returned v \<Rightarrow> Completed
                   | CancelledError \<Rightarrow> status (objects s r)
                   | _ \<Rightarrow> if retry_count (objects s r) < max_retries (objects s r)
                          then Scheduled else Failed) \<and>
      (task_queue s' = task_queue s \<or>
       task_queue s' = task_queue s @ [(priority_item (timestamp s) t', task_id (objects s r))] \<and>
         status t' = Scheduled)"
  proof (cases out)
    case (Returned v)
    show ?thesis
      by (rule exI [of _ "(objects s r)\<lparr>status := Completed, result := v, end_time := Some now_end\<rparr>"])
        (simp add: s'_def r_def Returned execute_task_resume_def finally_block_def Let_def)
  next
    case CancelledError
    show ?thesis
      by (rule exI [of _ "(objects s r)\<lparr>end_time := Some now_end\<rparr>"])
        (simp add: s'_def r_def CancelledError execute_task_resume_def finally_block_def Let_def)
  next
    case TimedOut
    show ?thesis
    proof (cases "retry_count (objects s r) < max_retries (objects s r)")
      case True
      show ?thesis
        by (rule exI [of _ "objects s' r"])
          (use True in \<open>auto simp: s'_def r_def TimedOut execute_task_resume_def
            finally_block_def except_block_def queue_put_def priority_item_def Let_def
            split: option.splits\<close>)
    next
      case False
      show ?thesis
        by (rule exI [of _ "objects s' r"])
          (use False in \<open>auto simp: s'_def r_def TimedOut execute_task_resume_def
            finally_block_def except_block_def queue_put_def priority_item_def Let_def\<close>)
    qed
  next
    case (Raised msg)
    show ?thesis
    proof (cases "retry_count (objects s r) < max_retries (objects s r)")
      case True
      show ?thesis
        by (rule exI [of _ "objects s' r"])
          (use True in \<open>auto simp: s'_def r_def Raised execute_task_resume_def
            finally_block_def except_block_def queue_put_def priority_item_def Let_def
            split: option.splits\<close>)
    next
      case False
      show ?thesis
        by (rule exI [of _ "objects s' r"])
          (use False in \<open>auto simp: s'_def r_def Raised execute_task_resume_def
            finally_block_def except_block_def queue_put_def priority_item_def Let_def\<close>)
    qed
  qed
qed
lemma invariant_Begin:
  assumes inv: "invariant c s"
  shows "invariant c (step s (Begin rid now))"
proof (cases "r_phase (runners s rid) = Pending")
  case False
  with inv show ?thesis by simp
next
  case True
  then have live: "r_phase (runners s rid) \<noteq> Done" by simp
  from inv have irn: "inv_runners s" by (simp add: invariant_def)
  define r where "r = r_task (runners s rid)"
  define s' where "s' = step s (Begin rid now)"
  have st: "status (objects s r) = runner_status (runners s rid)"
    using inv_runners_live(2) [OF irn live] by (simp add: r_def)
  show ?thesis
  proof (cases "r_cancel (runners s rid)")
    case c: True
    have "invariant c s'"
      by (rule invariant_runner_step [OF inv live r_def refl,
            where t' = "objects s r" and p' = Done])
        (use st c in \<open>simp_all add: s'_def True set_phase_def runner_status_def\<close>)
    then show ?thesis by (simp add: s'_def)
  next
    case nc: False
    show ?thesis
    proof (cases "task_type (objects s r) \<in> set (handlers s)")
      case h: True
      have "invariant c s'"
        by (rule invariant_runner_step [OF inv live r_def refl,
              where t' = "(objects s r)\<lparr>status := Running, start_time := Some now\<rparr>"
                and p' = Awaiting])
          (use h nc in \<open>simp_all add: s'_def True execute_task_begin_def set_phase_def Let_def
             r_def [symmetric]\<close>)
      then show ?thesis by (simp add: s'_def)
    next
      case nh: False
      have "invariant c s'"
        by (rule invariant_runner_step [OF inv live r_def refl,
              where t' = "(objects s r)\<lparr>status := Failed,
                  error := Some (no_handler_message (objects s r))\<rparr>"
                and p' = Done])
          (use nh nc in \<open>simp_all add: s'_def True execute_task_begin_def set_phase_def Let_def
             r_def [symmetric]\<close>)
      then show ?thesis by (simp add: s'_def)
    qed
  qed
qed

lemma invariant_Resume:
  assumes inv: "invariant c s"
    and req: "c \<Longrightarrow> out = CancelledError \<Longrightarrow> r_phase (runners s rid) = Awaiting \<Longrightarrow>
      r_cancel (runners s rid)"
  shows "invariant c (step s (Resume rid out now_retry now_end))"
proof (cases "r_phase (runners s rid) = Awaiting")
  case False
  with inv show ?thesis by auto
next
  case True
  then have live: "r_phase (runners s rid) \<noteq> Done" by simp
  from inv have irn: "inv_runners s" by (simp add: invariant_def)
  define r where "r = r_task (runners s rid)"
  define s' where "s' = execute_task_resume s rid out now_retry now_end"
  have st: "status (objects s r) = runner_status (runners s rid)"
    using inv_runners_live(2) [OF irn live] by (simp add: r_def)
  from resume_effect(1) [of s rid out now_retry now_end, folded r_def s'_def]
  obtain t' where t': "objects s' = (objects s)(r := t')" "task_id t' = task_id (objects s r)"
    "status t' = (case out of Returned v \<Rightarrow> Completed
                   | CancelledError \<Rightarrow> status (objects s r)
                   | _ \<Rightarrow> if retry_count (objects s r) < max_retries (objects s r)
                          then Scheduled else Failed)"
    "task_queue s' = task_queue s \<or>
       task_queue s' = task_queue s @ [(priority_item (timestamp s) t', task_id (objects s r))] \<and>
         status t' = Scheduled"
    by blast
  note rest = resume_effect(2-) [of s rid out now_retry now_end, folded r_def s'_def]
  have nr: "status t' \<noteq> Running" if c
  proof (cases out)
    case CancelledError
    from req [OF that CancelledError True] st t'(3) show ?thesis
      by (simp add: CancelledError runner_status_def)
  qed (use t'(3) in auto)
  have "invariant c s'"
  proof (rule invariant_runner_step [OF inv live r_def refl t'(1) t'(2) rest(2)])
    show "Done = Done \<and> (c \<longrightarrow> status t' \<noteq> Running) \<or>
        Done = Awaiting \<and> status t' = Running \<and> \<not> r_cancel (runners s rid) \<and>
          running_tasks s' = running_tasks s"
      using nr by simp
    show "running_tasks s' = running_tasks s \<or>
        running_tasks s' = AList.delete (task_id (objects s r)) (running_tasks s)"
      using rest(1) by simp
    show "task_queue s' = task_queue s \<or>
        (\<exists>k. task_queue s' = task_queue s @ [(k, task_id (objects s r))]) \<and>
          status t' = Scheduled \<and>
          running_tasks s' = AList.delete (task_id (objects s r)) (running_tasks s)"
      using t'(4) rest(1) by blast
  qed (simp_all add: rest)
  with True show ?thesis by (simp add: s'_def)
qed

lemma invariant_step:
  assumes "invariant c s"
    and "\<And>t. ev = Schedule t \<Longrightarrow> status t = Scheduled \<and> task_id t \<notin> fst ` set (tasks s)"
    and "\<And>rid a b. c \<Longrightarrow> ev = Resume rid CancelledError a b \<Longrightarrow>
           r_phase (runners s rid) = Awaiting \<Longrightarrow> r_cancel (runners s rid)"
  shows "invariant c (step s ev)"
proof (cases ev)
  case (Register ty)
  have "invariant c (step s ev) = invariant c s"
    by (rule invariant_cong) (simp_all add: Register register_handler_def)
  with assms(1) show ?thesis by simp
next
  case (Schedule t)
  from assms(2) [OF Schedule] have "status t = Scheduled" "task_id t \<notin> fst ` set (tasks s)"
    by simp_all
  from invariant_Schedule [OF assms(1) this] show ?thesis by (simp only: Schedule)
next
  case (Cancel tid)
  with assms(1) show ?thesis by (simp only: invariant_Cancel)
next
  case (Worker now)
  with assms(1) show ?thesis by (simp only: invariant_Worker)
next
  case (Begin rid now)
  with assms(1) show ?thesis by (simp only: invariant_Begin)
next
  case (Resume rid out n1 n2)
  have "invariant c (step s (Resume rid out n1 n2))"
    by (rule invariant_Resume [OF assms(1)]) (use assms(3) Resume in blast)
  then show ?thesis by (simp only: Resume)
next
  case Start
  have "invariant c (step s ev) = invariant c s"
    by (rule invariant_cong) (simp_all add: Start start_def)
  with assms(1) show ?thesis by simp
next
  case ShutdownStop
  have "invariant c (step s ev) = invariant c s"
    by (rule invariant_cong) (simp_all add: ShutdownStop shutdown_stop_def)
  with assms(1) show ?thesis by simp
next
  case ShutdownCancel
  with assms(1) show ?thesis by (simp only: invariant_ShutdownCancel)
next
  case ShutdownSave
  have "invariant c (step s ev) = invariant c s"
    by (rule invariant_cong) (simp_all add: ShutdownSave shutdown_save_def)
  with assms(1) show ?thesis by simp
qed

lemma fresh_ids_cong: "set u = set u' \<Longrightarrow> fresh_ids u evs = fresh_ids u' evs"
proof (induction u evs arbitrary: u' rule: fresh_ids.induct)
  case (2 used t evs)
  have "fresh_ids (task_id t # used) evs = fresh_ids (task_id t # u') evs"
    by (rule "2.IH") (simp add: "2.prems")
  with "2.prems" show ?case by simp
qed simp_all

lemma tasks_step:
  "map fst (tasks (step s ev)) =
     (case ev of Schedule t \<Rightarrow> if task_id t \<in> fst ` set (tasks s) then map fst (tasks s)
                                 else map fst (tasks s) @ [task_id t]
      | _ \<Rightarrow> map fst (tasks s))"
proof (cases ev)
  case (Schedule t)
  then show ?thesis by (simp add: step_Schedule AList.update_keys del: step.simps)
next
  case (Cancel tid)
  then show ?thesis by (simp add: cancel_task_def Let_def split: option.splits)
next
  case (Worker now)
  then show ?thesis by (simp add: worker_iteration_def Let_def split: option.splits)
next
  case (Begin rid now)
  then show ?thesis by (simp add: execute_task_begin_def Let_def)
next
  case (Resume rid out n1 n2)
  then show ?thesis by (simp add: resume_effect)
qed (simp_all add: register_handler_def start_def shutdown_stop_def shutdown_cancel_def
    shutdown_save_def)

lemma fresh_ids_step:
  assumes "fresh_ids (map fst (tasks s)) (ev # evs)"
  shows "fresh_ids (map fst (tasks (step s ev))) evs"
proof (cases ev)
  case (Schedule t)
  with assms have a: "task_id t \<notin> fst ` set (tasks s)"
    and b: "fresh_ids (task_id t # map fst (tasks s)) evs"
    by simp_all
  have "set (map fst (tasks (step s ev))) = set (task_id t # map fst (tasks s))"
    using a by (simp add: tasks_step Schedule del: step.simps)
  from fresh_ids_cong [OF this] b show ?thesis by simp
qed (use assms in \<open>simp_all add: tasks_step del: step.simps\<close>)

text \<open>
  In a run, \<open>CancelledError\<close> comes from a cancellation only: no suspended runner is
  resumed with it unless it has been cancelled.
\<close>

fun cancel_on_request :: "scheduler \<Rightarrow> event list \<Rightarrow> bool" where
  "cancel_on_request s [] = True"
| "cancel_on_request s (ev # evs) =
     ((case ev of
         Resume rid out now_retry now_end \<Rightarrow>
           out = CancelledError \<and> r_phase (runners s rid) = Awaiting \<longrightarrow>
             r_cancel (runners s rid)
       | _ \<Rightarrow> True) \<and>
      cancel_on_request (step s ev) evs)"

lemma invariant_run:
  "invariant c s \<Longrightarrow> fresh_ids (map fst (tasks s)) evs \<Longrightarrow> (c \<Longrightarrow> cancel_on_request s evs) \<Longrightarrow>
     invariant c (run s evs)"
proof (induction evs arbitrary: s)
  case Nil
  then show ?case by simp
next
  case (Cons ev evs)
  have "invariant c (step s ev)"
  proof (rule invariant_step [OF Cons.prems(1)])
    fix t assume "ev = Schedule t"
    with Cons.prems(2) show "status t = Scheduled \<and> task_id t \<notin> fst ` set (tasks s)"
      by (simp add: fresh_task_def)
  next
    fix rid a b
    assume c and "ev = Resume rid CancelledError a b" and "r_phase (runners s rid) = Awaiting"
    with Cons.prems(3) show "r_cancel (runners s rid)" by simp
  qed
  moreover have "fresh_ids (map fst (tasks (step s ev))) evs"
    by (rule fresh_ids_step [OF Cons.prems(2)])
  moreover have "cancel_on_request (step s ev) evs" if c
    using Cons.prems(3) [OF that] by simp
  ultimately show ?case using Cons.IH by simp
qed

section \<open>More facts of runs with fresh ids\<close>

lemma cancel_all_object:
  "objects (cancel_all xs s) r = objects s r
   \<or> objects (cancel_all xs s) r = (objects s r)\<lparr>status := Cancelled\<rparr>"
proof (induction xs s rule: cancel_all.induct)
  case (1 s)
  then show ?case by simp
next
  case (2 tid rid rest s)
  show ?case
  proof (cases "map_of (tasks s) tid")
    case None
    then show ?thesis by (simp add: Let_def)
  next
    case (Some r')
    let ?s1 = "cancel_runner rid s"
    let ?s2 = "?s1\<lparr>objects := (objects ?s1)(r' := (objects ?s1 r')\<lparr>status := Cancelled\<rparr>)\<rparr>"
    from Some have e: "cancel_all ((tid, rid) # rest) s = cancel_all rest ?s2"
      by (simp add: Let_def)
    from Some have "objects (cancel_all rest ?s2) r = objects ?s2 r
        \<or> objects (cancel_all rest ?s2) r = (objects ?s2 r)\<lparr>status := Cancelled\<rparr>"
      by (intro "2.IH" [of ?s1 r']) simp_all
    moreover have "objects ?s2 r = objects s r \<or> objects ?s2 r = (objects s r)\<lparr>status := Cancelled\<rparr>"
      by simp
    ultimately show ?thesis unfolding e by auto
  qed
qed

lemma cancel_all_key [simp]:
  "priority_item ts (objects (cancel_all xs s) r) = priority_item ts (objects s r)"
  "task_id (objects (cancel_all xs s) r) = task_id (objects s r)"
  "task_type (objects (cancel_all xs s) r) = task_type (objects s r)"
  "error (objects (cancel_all xs s) r) = error (objects s r)"
  "result (objects (cancel_all xs s) r) = result (objects s r)"
  using cancel_all_object [of xs s r] by (auto simp: priority_item_def)

text \<open>
  Two more facts of runs with fresh ids. Every queue entry carries the key of the task
  that the task set holds under the entry's id. And an entry of \<open>running_tasks\<close> whose
  runner is done is the entry of a task that was cancelled before the runner's first
  run, or that failed for want of a handler.
\<close>

definition inv_keys :: "scheduler \<Rightarrow> bool" where
  "inv_keys s \<longleftrightarrow>
     (\<forall>k tid. (k, tid) \<in> set (task_queue s) \<longrightarrow>
        (\<exists>r. map_of (tasks s) tid = Some r \<and> k = priority_item (timestamp s) (objects s r)))"

definition leaked :: "task \<Rightarrow> bool" where
  "leaked t \<longleftrightarrow>
     status t = Cancelled \<or> status t = Failed \<and> error t = Some (no_handler_message t)"

definition inv_leak :: "scheduler \<Rightarrow> bool" where
  "inv_leak s \<longleftrightarrow>
     (\<forall>tid rid. map_of (running_tasks s) tid = Some rid \<and> r_phase (runners s rid) = Done \<longrightarrow>
        leaked (objects s (r_task (runners s rid))))"

lemma inv_keys_entry:
  assumes "inv_keys s" "(k, tid) \<in> set (task_queue s)"
  shows "\<exists>r. map_of (tasks s) tid = Some r \<and> k = priority_item (timestamp s) (objects s r)"
  by (rule assms(1) [unfolded inv_keys_def, rule_format, OF assms(2)])

lemma inv_keysI:
  assumes "\<And>k tid. (k, tid) \<in> set (task_queue s) \<Longrightarrow>
    \<exists>r. map_of (tasks s) tid = Some r \<and> k = priority_item (timestamp s) (objects s r)"
  shows "inv_keys s"
  unfolding inv_keys_def using assms by blast

lemma inv_leak_entry:
  assumes "inv_leak s" "map_of (running_tasks s) tid = Some rid" "r_phase (runners s rid) = Done"
  shows "leaked (objects s (r_task (runners s rid)))"
  using assms unfolding inv_leak_def by blast

lemma inv_leakI:
  assumes "\<And>tid rid. map_of (running_tasks s) tid = Some rid \<Longrightarrow> r_phase (runners s rid) = Done \<Longrightarrow>
    leaked (objects s (r_task (runners s rid)))"
  shows "inv_leak s"
  unfolding inv_leak_def using assms by blast

text \<open>An event that leaves the queue a part of what it was, and keeps the key fields of
  every task of the task set.\<close>

lemma inv_keys_sub:
  assumes "inv_keys s" and "set (task_queue s') \<subseteq> set (task_queue s)"
    and "tasks s' = tasks s" and "timestamp s' = timestamp s"
    and "\<And>r. priority_item (timestamp s) (objects s' r) = priority_item (timestamp s) (objects s r)"
  shows "inv_keys s'"
proof (rule inv_keysI)
  fix k tid assume "(k, tid) \<in> set (task_queue s')"
  with assms(2) have "(k, tid) \<in> set (task_queue s)" by blast
  from inv_keys_entry [OF assms(1) this] show
    "\<exists>r. map_of (tasks s') tid = Some r \<and> k = priority_item (timestamp s') (objects s' r)"
    by (simp add: assms(3,4,5))
qed

lemma inv_keys_step:
  assumes inv: "invariant c s" and ik: "inv_keys s"
    and fresh: "\<And>t. ev = Schedule t \<Longrightarrow> task_id t \<notin> fst ` set (tasks s)"
  shows "inv_keys (step s ev)"
proof (cases ev)
  case (Register ty)
  show ?thesis by (rule inv_keys_sub [OF ik]) (simp_all add: Register register_handler_def)
next
  case (Schedule t)
  from inv have it: "inv_tasks s" and iq: "inv_queue s" by (simp_all add: invariant_def)
  define s' where "s' = step s (Schedule t)"
  have f: "objects s' = (objects s)(next_object s := t)"
    "task_queue s' = task_queue s @ [(priority_item (timestamp s) t, task_id t)]"
    "timestamp s' = timestamp s"
    and ft: "tasks s' = AList.update (task_id t) (next_object s) (tasks s)"
    by (simp_all add: s'_def step_Schedule del: step.simps)
  have m: "map_of (tasks s') tid = (if tid = task_id t then Some (next_object s)
      else map_of (tasks s) tid)" for tid
    by (simp add: ft AList.update_conv')
  have "inv_keys s'"
  proof (rule inv_keysI)
    fix k tid assume a: "(k, tid) \<in> set (task_queue s')"
    show "\<exists>r. map_of (tasks s') tid = Some r \<and> k = priority_item (timestamp s') (objects s' r)"
    proof (cases "(k, tid) \<in> set (task_queue s)")
      case True
      then have "tid \<in> snd ` set (task_queue s)" by force
      from inv_queue_keys [OF iq this] fresh [OF Schedule] have ne: "tid \<noteq> task_id t" by blast
      from inv_keys_entry [OF ik True] obtain r where r: "map_of (tasks s) tid = Some r"
        "k = priority_item (timestamp s) (objects s r)" by blast
      from inv_tasks_ref(1) [OF it r(1)] have "r \<noteq> next_object s" by simp
      with r ne show ?thesis by (simp add: m f)
    next
      case False
      with a have "k = priority_item (timestamp s) t" "tid = task_id t" by (auto simp: f)
      then show ?thesis by (simp add: m f)
    qed
  qed
  then show ?thesis by (simp only: Schedule s'_def)
next
  case (Cancel tid)
  show ?thesis
    by (rule inv_keys_sub [OF ik])
      (auto simp: Cancel cancel_task_def Let_def priority_item_def split: option.splits)
next
  case (Worker now)
  show ?thesis
  proof (cases "step s ev = s")
    case True
    with ik show ?thesis by simp
  next
    case False
    with Worker obtain k tid q' where g: "queue_get (task_queue s) = Some ((k, tid), q')"
      by (auto simp: worker_iteration_def split: if_splits option.splits)
    from queue_get_Some [OF g] have "q' = remove1 (k, tid) (task_queue s)" by simp
    then have sub: "set q' \<subseteq> set (task_queue s)"
      by (simp add: set_remove1_subset)
    have w: "step s ev = worker_iteration s now" "is_running s"
      "\<not> max_concurrent_tasks s \<le> int (length (running_tasks s))"
      using False Worker by (auto simp: worker_iteration_def split: if_splits)
    show ?thesis
    proof (cases "\<exists>r. map_of (tasks s) tid = Some r \<and> status (objects s r) \<noteq> Cancelled
        \<and> now < schedule_time (objects s r)")
      case True
      then obtain r where r: "map_of (tasks s) tid = Some r" "status (objects s r) \<noteq> Cancelled"
        "now < schedule_time (objects s r)" by blast
      have e: "step s ev = s\<lparr>task_queue := q' @ [(priority_item (timestamp s) (objects s r), tid)]\<rparr>"
        using g r w by (simp add: worker_iteration_def queue_put_def Let_def)
      show ?thesis
        unfolding e
      proof (rule inv_keysI)
        fix k' tid'
        assume "(k', tid') \<in> set (task_queue
          (s\<lparr>task_queue := q' @ [(priority_item (timestamp s) (objects s r), tid)]\<rparr>))"
        then have "(k', tid') \<in> set (task_queue s)
          \<or> (k', tid') = (priority_item (timestamp s) (objects s r), tid)"
          using sub by auto
        then show "\<exists>r'. map_of (tasks
            (s\<lparr>task_queue := q' @ [(priority_item (timestamp s) (objects s r), tid)]\<rparr>)) tid' = Some r'
          \<and> k' = priority_item (timestamp
            (s\<lparr>task_queue := q' @ [(priority_item (timestamp s) (objects s r), tid)]\<rparr>))
              (objects (s\<lparr>task_queue := q' @ [(priority_item (timestamp s) (objects s r), tid)]\<rparr>) r')"
          using inv_keys_entry [OF ik, of k' tid'] r(1) by auto
      qed
    next
      case False
      have "set (task_queue (step s ev)) \<subseteq> set (task_queue s)"
        using g w False sub
        by (auto simp: worker_iteration_def queue_put_def Let_def split: option.splits if_splits)
      then show ?thesis
        by (rule inv_keys_sub [OF ik])
          (simp_all add: w worker_iteration_def Let_def split: option.splits)
    qed
  qed
next
  case (Begin rid now)
  show ?thesis
    by (rule inv_keys_sub [OF ik])
      (auto simp: Begin execute_task_begin_def Let_def priority_item_def)
next
  case (Resume rid out n1 n2)
  show ?thesis
  proof (cases "r_phase (runners s rid) = Awaiting")
    case False
    with ik show ?thesis by (simp add: Resume)
  next
    case True
    then have live: "r_phase (runners s rid) \<noteq> Done" by simp
    from inv have it: "inv_tasks s" and ir: "inv_running s" and irn: "inv_runners s"
      and iq: "inv_queue s" by (simp_all add: invariant_def)
    define r where "r = r_task (runners s rid)"
    define tid where "tid = task_id (objects s r)"
    define s' where "s' = execute_task_resume s rid out n1 n2"
    from resume_effect(1) [of s rid out n1 n2, folded r_def s'_def]
    obtain t' where t': "objects s' = (objects s)(r := t')"
      "task_queue s' = task_queue s \<or>
         task_queue s' = task_queue s @ [(priority_item (timestamp s) t', tid)]"
      unfolding tid_def by blast
    note rest = resume_effect(2-) [of s rid out n1 n2, folded r_def s'_def]
    have reg: "map_of (running_tasks s) tid = Some rid"
      using inv_runners_live(1) [OF irn live] by (simp add: r_def tid_def)
    have tr: "map_of (tasks s) tid = Some r"
      using live_runner_task [OF ir irn live] by (simp add: r_def tid_def)
    have ts: "timestamp s' = timestamp s"
      using timestamp_step [of s "Resume rid out n1 n2"] True by (simp add: s'_def)
    have "inv_keys s'"
    proof (rule inv_keysI)
      fix k tid' assume a: "(k, tid') \<in> set (task_queue s')"
      show "\<exists>r'. map_of (tasks s') tid' = Some r' \<and> k = priority_item (timestamp s') (objects s' r')"
      proof (cases "(k, tid') \<in> set (task_queue s)")
        case old: True
        have ne: "tid' \<noteq> tid"
        proof
          assume "tid' = tid"
          with old have "(k, tid) \<in> set (task_queue s)" by simp
          from inv_queue_runner [OF iq this reg] live show False by simp
        qed
        from inv_keys_entry [OF ik old] obtain r' where r': "map_of (tasks s) tid' = Some r'"
          "k = priority_item (timestamp s) (objects s r')" by blast
        from inv_tasks_ref(2) [OF it r'(1)] ne have "r' \<noteq> r" by (auto simp: tid_def)
        with r' show ?thesis by (simp add: rest ts t'(1))
      next
        case False
        with a t'(2) have "k = priority_item (timestamp s) t'" "tid' = tid" by auto
        with tr show ?thesis by (simp add: rest ts t'(1))
      qed
    qed
    with True show ?thesis by (simp add: Resume s'_def)
  qed
next
  case Start
  show ?thesis by (rule inv_keys_sub [OF ik]) (simp_all add: Start start_def)
next
  case ShutdownStop
  show ?thesis by (rule inv_keys_sub [OF ik]) (simp_all add: ShutdownStop shutdown_stop_def)
next
  case ShutdownCancel
  show ?thesis by (rule inv_keys_sub [OF ik]) (simp_all add: ShutdownCancel shutdown_cancel_def)
next
  case ShutdownSave
  show ?thesis by (rule inv_keys_sub [OF ik]) (simp_all add: ShutdownSave shutdown_save_def)
qed

lemma inv_leak_mono:
  assumes "inv_leak s"
    and "\<And>tid rid. map_of (running_tasks s') tid = Some rid \<Longrightarrow> r_phase (runners s' rid) = Done \<Longrightarrow>
      map_of (running_tasks s) tid = Some rid \<and> r_phase (runners s rid) = Done \<and>
      r_task (runners s' rid) = r_task (runners s rid) \<and>
      (leaked (objects s (r_task (runners s rid))) \<longrightarrow>
         leaked (objects s' (r_task (runners s rid))))"
  shows "inv_leak s'"
proof (rule inv_leakI)
  fix tid rid
  assume a: "map_of (running_tasks s') tid = Some rid" "r_phase (runners s' rid) = Done"
  note b = assms(2) [OF a]
  from inv_leak_entry [OF assms(1) b [THEN conjunct1] b [THEN conjunct2, THEN conjunct1]] b
  show "leaked (objects s' (r_task (runners s' rid)))" by simp
qed

text \<open>Only the runner registered for a task that has a runner not yet done refers to
  the task.\<close>

lemma registered_other_task:
  assumes it: "inv_tasks s" and ir: "inv_running s" and irn: "inv_runners s"
    and live: "r_phase (runners s rid0) \<noteq> Done"
    and e: "map_of (running_tasks s) tid = Some rid" and ne: "rid \<noteq> rid0"
  shows "r_task (runners s rid) \<noteq> r_task (runners s rid0)"
proof
  assume eq: "r_task (runners s rid) = r_task (runners s rid0)"
  from inv_running_entry(2) [OF ir e] have "map_of (tasks s) tid = Some (r_task (runners s rid0))"
    by (simp add: eq)
  from inv_tasks_ref(2) [OF it this]
  have "tid = task_id (objects s (r_task (runners s rid0)))" by simp
  with inv_runners_live(1) [OF irn live] e ne show False by simp
qed

lemma inv_leak_step:
  assumes inv: "invariant c s" and il: "inv_leak s"
    and fresh: "\<And>t. ev = Schedule t \<Longrightarrow> task_id t \<notin> fst ` set (tasks s)"
  shows "inv_leak (step s ev)"
proof -
  from inv have it: "inv_tasks s" and ir: "inv_running s" and irn: "inv_runners s"
    and iq: "inv_queue s" by (simp_all add: invariant_def)
  show ?thesis
  proof (cases ev)
    case (Register ty)
    show ?thesis by (rule inv_leak_mono [OF il]) (simp_all add: Register register_handler_def)
  next
    case (Schedule t)
    show ?thesis
    proof (rule inv_leak_mono [OF il])
      fix tid rid
      assume a: "map_of (running_tasks (step s ev)) tid = Some rid"
        "r_phase (runners (step s ev) rid) = Done"
      then have b: "map_of (running_tasks s) tid = Some rid" "r_phase (runners s rid) = Done"
        by (simp_all add: Schedule step_Schedule del: step.simps)
      from inv_tasks_ref(1) [OF it inv_running_entry(2) [OF ir b(1)]]
      have "r_task (runners s rid) \<noteq> next_object s" by simp
      with b show "map_of (running_tasks s) tid = Some rid \<and> r_phase (runners s rid) = Done \<and>
        r_task (runners (step s ev) rid) = r_task (runners s rid) \<and>
        (leaked (objects s (r_task (runners s rid))) \<longrightarrow>
           leaked (objects (step s ev) (r_task (runners s rid))))"
        by (simp add: Schedule step_Schedule del: step.simps)
    qed
  next
    case (Cancel tid0)
    have f: "running_tasks (step s ev) = running_tasks s"
      "r_phase (runners (step s ev) rid) = r_phase (runners s rid)"
      "r_task (runners (step s ev) rid) = r_task (runners s rid)" for rid
      by (simp_all add: Cancel cancel_task_def Let_def split: option.splits)
    have l: "leaked (objects (step s ev) r)" if "leaked (objects s r)" for r
      using that by (auto simp: Cancel cancel_task_def Let_def leaked_def split: option.splits)
    show ?thesis by (rule inv_leak_mono [OF il]) (simp add: f l)
  next
    case (Worker now)
    show ?thesis
    proof (cases "next_runner (step s ev) = next_runner s")
      case True
      have f: "runners (step s ev) = runners s" "objects (step s ev) = objects s"
        "running_tasks (step s ev) = running_tasks s"
        using True
        by (auto simp: Worker worker_iteration_def Let_def split: option.splits if_splits)
      show ?thesis by (rule inv_leak_mono [OF il]) (simp add: f)
    next
      case False
      then obtain k tid q' r where g: "queue_get (task_queue s) = Some ((k, tid), q')"
        and r: "map_of (tasks s) tid = Some r"
        and e: "step s ev = s\<lparr>task_queue := q',
             runners := (runners s)(next_runner s :=
                          \<lparr>r_task = r, r_phase = Pending, r_cancel = False\<rparr>),
             next_runner := Suc (next_runner s),
             running_tasks := AList.update tid (next_runner s) (running_tasks s)\<rparr>"
        by (auto simp: Worker worker_iteration_def Let_def split: option.splits if_splits)
      show ?thesis
      proof (rule inv_leak_mono [OF il])
        fix tid' rid
        assume a: "map_of (running_tasks (step s ev)) tid' = Some rid"
          "r_phase (runners (step s ev) rid) = Done"
        from a(2) have ne: "rid \<noteq> next_runner s" by (auto simp: e)
        with a(1) have b: "map_of (running_tasks s) tid' = Some rid"
          by (auto simp: e AList.update_conv' split: if_splits)
        with a(2) ne show "map_of (running_tasks s) tid' = Some rid \<and> r_phase (runners s rid) = Done \<and>
          r_task (runners (step s ev) rid) = r_task (runners s rid) \<and>
          (leaked (objects s (r_task (runners s rid))) \<longrightarrow>
             leaked (objects (step s ev) (r_task (runners s rid))))"
          by (simp add: e)
      qed
    qed
  next
    case (Begin rid0 now)
    show ?thesis
    proof (cases "r_phase (runners s rid0) = Pending")
      case False
      with il show ?thesis by (simp add: Begin)
    next
      case True
      then have live: "r_phase (runners s rid0) \<noteq> Done" by simp
      define r0 where "r0 = r_task (runners s rid0)"
      have st: "status (objects s r0) = runner_status (runners s rid0)"
        using inv_runners_live(2) [OF irn live] by (simp add: r0_def)
      have f: "running_tasks (step s ev) = running_tasks s"
        "r_task (runners (step s ev) rid) = r_task (runners s rid)"
        "rid \<noteq> rid0 \<Longrightarrow> r_phase (runners (step s ev) rid) = r_phase (runners s rid)"
        "r \<noteq> r0 \<Longrightarrow> objects (step s ev) r = objects s r" for rid r
        by (simp_all add: Begin True execute_task_begin_def Let_def r0_def)
      have own: "leaked (objects (step s ev) r0)" if "r_phase (runners (step s ev) rid0) = Done"
        using that st
        by (auto simp: Begin True execute_task_begin_def Let_def r0_def leaked_def
            runner_status_def no_handler_message_def split: if_splits)
      show ?thesis
      proof (rule inv_leakI)
        fix tid rid
        assume a: "map_of (running_tasks (step s ev)) tid = Some rid"
          "r_phase (runners (step s ev) rid) = Done"
        show "leaked (objects (step s ev) (r_task (runners (step s ev) rid)))"
        proof (cases "rid = rid0")
          case same: True
          with a(2) own show ?thesis by (simp add: f r0_def)
        next
          case other: False
          from a have b: "map_of (running_tasks s) tid = Some rid" "r_phase (runners s rid) = Done"
            using other by (simp_all add: f)
          from registered_other_task [OF it ir irn live b(1) other]
          have "r_task (runners s rid) \<noteq> r0" by (simp add: r0_def)
          with inv_leak_entry [OF il b] show ?thesis by (simp add: f)
        qed
      qed
    qed
  next
    case (Resume rid0 out n1 n2)
    show ?thesis
    proof (cases "r_phase (runners s rid0) = Awaiting")
      case False
      with il show ?thesis by (simp add: Resume)
    next
      case True
      then have live: "r_phase (runners s rid0) \<noteq> Done" by simp
      define r0 where "r0 = r_task (runners s rid0)"
      define tid0 where "tid0 = task_id (objects s r0)"
      define s' where "s' = execute_task_resume s rid0 out n1 n2"
      from resume_effect(1) [of s rid0 out n1 n2, folded r0_def s'_def]
      obtain t' where t': "objects s' = (objects s)(r0 := t')" by blast
      note rest = resume_effect(2-) [of s rid0 out n1 n2, folded r0_def s'_def, folded tid0_def]
      have reg: "map_of (running_tasks s) tid0 = Some rid0"
        using inv_runners_live(1) [OF irn live] by (simp add: r0_def tid0_def)
      have "inv_leak s'"
      proof (rule inv_leak_mono [OF il])
        fix tid rid
        assume a: "map_of (running_tasks s') tid = Some rid" "r_phase (runners s' rid) = Done"
        from a(1) have ne: "tid \<noteq> tid0" and b: "map_of (running_tasks s) tid = Some rid"
          by (auto simp: rest AList.delete_conv' split: if_splits)
        have other: "rid \<noteq> rid0"
        proof
          assume "rid = rid0"
          with inv_running_entry(2) [OF ir b] inv_running_entry(2) [OF ir reg]
          have "map_of (tasks s) tid = Some r0" "map_of (tasks s) tid0 = Some r0"
            by (simp_all add: r0_def)
          from inv_tasks_inj [OF it this] ne show False by simp
        qed
        from registered_other_task [OF it ir irn live b other]
        have "r_task (runners s rid) \<noteq> r0" by (simp add: r0_def)
        with a(2) b other
        show "map_of (running_tasks s) tid = Some rid \<and> r_phase (runners s rid) = Done \<and>
          r_task (runners s' rid) = r_task (runners s rid) \<and>
          (leaked (objects s (r_task (runners s rid))) \<longrightarrow>
             leaked (objects s' (r_task (runners s rid))))"
          by (simp add: rest t')
      qed
      with True show ?thesis by (simp add: Resume s'_def)
    qed
  next
    case Start
    show ?thesis by (rule inv_leak_mono [OF il]) (auto simp: Start start_def split: if_splits)
  next
    case ShutdownStop
    show ?thesis by (rule inv_leak_mono [OF il]) (simp_all add: ShutdownStop shutdown_stop_def)
  next
    case ShutdownCancel
    have l: "leaked (objects (cancel_all xs s) r)" if "leaked (objects s r)" for r xs
      using that cancel_all_object [of xs s r] by (auto simp: leaked_def)
    show ?thesis
      by (rule inv_leak_mono [OF il]) (simp add: ShutdownCancel shutdown_cancel_def l)
  next
    case ShutdownSave
    show ?thesis by (rule inv_leak_mono [OF il]) (simp_all add: ShutdownSave shutdown_save_def)
  qed
qed

lemma fresh_ids_append:
  "fresh_ids (map fst (tasks s)) (evs @ [ev]) \<Longrightarrow>
     fresh_ids (map fst (tasks s)) evs \<and> fresh_ids (map fst (tasks (run s evs))) [ev]"
proof (induction evs arbitrary: s)
  case Nil
  then show ?case by simp
next
  case (Cons e evs)
  from Cons.prems have a: "fresh_ids (map fst (tasks s)) (e # (evs @ [ev]))" by simp
  from Cons.IH [OF fresh_ids_step [OF a]]
  have b: "fresh_ids (map fst (tasks (step s e))) evs"
    and c: "fresh_ids (map fst (tasks (run (step s e) evs))) [ev]"
    by simp_all
  have "fresh_ids (map fst (tasks s)) (e # evs)"
  proof (cases e)
    case (Schedule t)
    with a have f: "fresh_task t" and n: "task_id t \<notin> set (map fst (tasks s))" by simp_all
    have "set (map fst (tasks (step s e))) = set (task_id t # map fst (tasks s))"
      using n by (simp add: tasks_step Schedule del: step.simps)
    from fresh_ids_cong [OF this] b f n show ?thesis by (simp add: Schedule)
  qed (use b in \<open>simp_all add: tasks_step del: step.simps\<close>)
  with c show ?case by simp
qed

lemma invariants_run:
  assumes "invariant c s" "inv_keys s" "inv_leak s" "fresh_ids (map fst (tasks s)) evs"
    and "c \<Longrightarrow> cancel_on_request s evs"
  shows "invariant c (run s evs) \<and> inv_keys (run s evs) \<and> inv_leak (run s evs)"
  using assms
proof (induction evs arbitrary: s)
  case Nil
  then show ?case by simp
next
  case (Cons ev evs)
  have fr: "status t = Scheduled \<and> task_id t \<notin> fst ` set (tasks s)" if "ev = Schedule t" for t
    using Cons.prems(4) that by (simp add: fresh_task_def)
  have 1: "invariant c (step s ev)"
  proof (rule invariant_step [OF Cons.prems(1) fr])
    fix rid a b
    assume c and "ev = Resume rid CancelledError a b" and "r_phase (runners s rid) = Awaiting"
    with Cons.prems(5) show "r_cancel (runners s rid)" by simp
  qed
  have 2: "inv_keys (step s ev)"
    by (rule inv_keys_step [OF Cons.prems(1,2)]) (simp add: fr)
  have 3: "inv_leak (step s ev)"
    by (rule inv_leak_step [OF Cons.prems(1,3)]) (simp add: fr)
  have 4: "fresh_ids (map fst (tasks (step s ev))) evs"
    by (rule fresh_ids_step [OF Cons.prems(4)])
  have 5: "cancel_on_request (step s ev) evs" if c
    using Cons.prems(5) [OF that] by simp
  from Cons.IH [OF 1 2 3 4 5] show ?case by simp
qed

subsection \<open>Schedulers constructed on a file\<close>

text \<open>
  The file that \<open>save_tasks\<close> writes holds one item per key of the task set, each under
  the id of its task: \<open>wf_file\<close>. A file is \<open>idle\<close> when no item has the status Running.
\<close>

definition wf_file :: "(string \<times> task_dict) list option \<Rightarrow> bool" where
  "wf_file saved =
     (case saved of
        None \<Rightarrow> True
      | Some items \<Rightarrow> distinct (map fst items) \<and> list_all (\<lambda>(k, d). d_task_id d = Some k) items)"

definition idle_file :: "(string \<times> task_dict) list option \<Rightarrow> bool" where
  "idle_file saved =
     (case saved of
        None \<Rightarrow> True
      | Some items \<Rightarrow> list_all (\<lambda>(k, d). d_status d \<noteq> Some Running) items)"

lemma from_dict_fields:
  assumes "from_dict d = Inr t"
  shows "d_task_id d = Some (task_id t)"
    and "status t = get_default (d_status d) Scheduled"
    and "retry_count t = get_default (d_retry_count d) 0"
    and "max_retries t = get_default (d_max_retries d) 3"
    and "result t = d_result d" and "error t = d_error d"
  using assms
  by (auto simp: from_dict_def Task_init_def Let_def split: option.splits sum.splits)

definition quiet :: "scheduler \<Rightarrow> bool" where
  "quiet s \<longleftrightarrow> running_tasks s = [] \<and> (\<forall>rid. r_phase (runners s rid) = Done)"

lemma quiet_invariant:
  assumes "quiet s"
  shows "invariant c s \<longleftrightarrow>
    inv_tasks s \<and> distinct (map snd (task_queue s)) \<and>
    (\<forall>k tid. (k, tid) \<in> set (task_queue s) \<longrightarrow>
       (\<exists>r. map_of (tasks s) tid = Some r \<and>
         (status (objects s r) = Scheduled \<or> status (objects s r) = Cancelled))) \<and>
    (c \<longrightarrow> (\<forall>tid r. map_of (tasks s) tid = Some r \<longrightarrow> status (objects s r) \<noteq> Running))"
  using assms
  by (auto simp: quiet_def invariant_def inv_running_def inv_runners_def inv_queue_def
      inv_status_def inv_capacity_def)

lemma load_item_invariant:
  assumes q: "quiet s" and inv: "invariant c s" and ik: "inv_keys s"
    and new: "k \<notin> fst ` set (tasks s)" and id: "task_id t = k"
    and run: "c \<Longrightarrow> status t \<noteq> Running"
  defines "s1 \<equiv> s\<lparr>objects := (objects s)(next_object s := t),
                     next_object := Suc (next_object s),
                     tasks := AList.update k (next_object s) (tasks s)\<rparr>"
  defines "s2 \<equiv> (if status t = Scheduled
                    then s1\<lparr>task_queue :=
                           queue_put (task_queue s1) (priority_item (timestamp s1) t, k)\<rparr>
                    else s1)"
  shows "quiet s2 \<and> invariant c s2 \<and> inv_keys s2
    \<and> map fst (tasks s2) = map fst (tasks s) @ [k]"
proof -
  from inv have it: "inv_tasks s" and iq: "inv_queue s" by (simp_all add: invariant_def)
  have f: "objects s2 = (objects s)(next_object s := t)" "next_object s2 = Suc (next_object s)"
    "running_tasks s2 = running_tasks s" "runners s2 = runners s"
    "timestamp s2 = timestamp s"
    and ft: "tasks s2 = AList.update k (next_object s) (tasks s)"
    and fq: "task_queue s2 = (if status t = Scheduled
        then task_queue s @ [(priority_item (timestamp s) t, k)] else task_queue s)"
    by (simp_all add: s2_def s1_def queue_put_def)
  have m: "map_of (tasks s2) tid = (if tid = k then Some (next_object s) else map_of (tasks s) tid)"
    for tid
    by (simp add: ft AList.update_conv')
  have old: "r < next_object s \<and> task_id (objects s r) = tid" if "map_of (tasks s) tid = Some r"
    for tid r
    using inv_tasks_ref [OF it that] by simp
  have nq: "k \<notin> snd ` set (task_queue s)"
    using inv_queue_keys [OF iq] new by blast
  have none: "map_of (tasks s) k = None"
    using new by (simp add: map_of_None_iff)
  have 1: "quiet s2" using q by (simp add: quiet_def f)
  have keys: "map fst (tasks s2) = map fst (tasks s) @ [k]"
    using new by (simp add: ft AList.update_keys)
  have 2: "inv_tasks s2"
    unfolding inv_tasks_def
  proof (intro conjI allI impI)
    show "distinct (map fst (tasks s2))"
      using it by (simp add: ft inv_tasks_def AList.distinct_update)
  next
    fix tid r assume a: "map_of (tasks s2) tid = Some r"
    show "r < next_object s2" and "task_id (objects s2 r) = tid"
      using a old [of tid r] id by (auto simp: m f split: if_splits)
  qed
  have entry: "\<exists>r. map_of (tasks s2) tid = Some r \<and>
      (status (objects s2 r) = Scheduled \<or> status (objects s2 r) = Cancelled) \<and>
      k' = priority_item (timestamp s2) (objects s2 r)"
    if a: "(k', tid) \<in> set (task_queue s2)" for k' tid
  proof (cases "(k', tid) \<in> set (task_queue s)")
    case True
    then have "tid \<in> snd ` set (task_queue s)" by force
    with nq have ne: "tid \<noteq> k" by blast
    from inv_queue_task [OF iq True] inv_keys_entry [OF ik True]
    obtain r where r: "map_of (tasks s) tid = Some r"
      "status (objects s r) = Scheduled \<or> status (objects s r) = Cancelled"
      "k' = priority_item (timestamp s) (objects s r)"
      by auto
    from old [OF r(1)] have "r \<noteq> next_object s" by simp
    with r ne show ?thesis by (simp add: m f)
  next
    case False
    with a have "status t = Scheduled" "k' = priority_item (timestamp s) t" "tid = k"
      by (auto simp: fq split: if_splits)
    then show ?thesis by (simp add: m f)
  qed
  have 3: "distinct (map snd (task_queue s2))"
    using inv_queue_distinct [OF iq] nq by (simp add: fq)
  have 4: "status (objects s2 r) \<noteq> Running" if c "map_of (tasks s2) tid = Some r" for tid r
  proof (cases "tid = k")
    case True
    with that run show ?thesis by (simp add: m f)
  next
    case False
    with that have r: "map_of (tasks s) tid = Some r" by (simp add: m)
    from old [OF r] have "r \<noteq> next_object s" by simp
    moreover from inv q that(1) r have "status (objects s r) \<noteq> Running"
      by (simp add: quiet_invariant)
    ultimately show ?thesis by (simp add: f)
  qed
  have "invariant c s2"
    unfolding quiet_invariant [OF 1] using 2 3 4 entry by blast
  moreover have "inv_keys s2"
    by (rule inv_keysI) (use entry in blast)
  ultimately show ?thesis using 1 keys by simp
qed

lemma load_items_invariant:
  assumes "quiet s" "invariant c s" "inv_keys s"
    and "distinct (map fst (tasks s) @ map fst items)"
    and "list_all (\<lambda>(k, d). d_task_id d = Some k) items"
    and "c \<Longrightarrow> list_all (\<lambda>(k, d). d_status d \<noteq> Some Running) items"
  shows "quiet (load_items items s) \<and> invariant c (load_items items s)
    \<and> inv_keys (load_items items s)"
  using assms
proof (induction items arbitrary: s)
  case Nil
  then show ?case by simp
next
  case (Cons x items)
  obtain k d where x: "x = (k, d)" by (cases x)
  show ?case
  proof (cases "from_dict d")
    case (Inl e)
    with Cons.prems show ?thesis by (simp add: x)
  next
    case (Inr t)
    define s1 where "s1 = s\<lparr>objects := (objects s)(next_object s := t),
                     next_object := Suc (next_object s),
                     tasks := AList.update k (next_object s) (tasks s)\<rparr>"
    define s2 where "s2 = (if status t = Scheduled
                    then s1\<lparr>task_queue :=
                           queue_put (task_queue s1) (priority_item (timestamp s1) t, k)\<rparr>
                    else s1)"
    have e: "load_items (x # items) s = load_items items s2"
      by (simp add: x Inr s2_def s1_def Let_def)
    from Cons.prems(5) from_dict_fields(1) [OF Inr] have id: "task_id t = k" by (simp add: x)
    from Cons.prems(4) have new: "k \<notin> fst ` set (tasks s)" by (auto simp: x)
    have run: "status t \<noteq> Running" if c
      using Cons.prems(6) [OF that] from_dict_fields(2) [OF Inr]
      by (cases "d_status d") (auto simp: x get_default_def)
    note st = load_item_invariant [OF Cons.prems(1,2,3) new id run, folded s1_def, folded s2_def]
    have "quiet (load_items items s2) \<and> invariant c (load_items items s2)
      \<and> inv_keys (load_items items s2)"
    proof (rule Cons.IH)
      show "quiet s2" "invariant c s2" "inv_keys s2" using st by simp_all
      show "distinct (map fst (tasks s2) @ map fst items)"
        using Cons.prems(4) st by (auto simp: x)
      show "list_all (\<lambda>(k, d). d_task_id d = Some k) items"
        using Cons.prems(5) by simp
      show "list_all (\<lambda>(k, d). d_status d \<noteq> Some Running) items" if c
        using Cons.prems(6) [OF that] by simp
    qed
    then show ?thesis by (simp only: e)
  qed
qed

lemma invariant_init_file:
  assumes "wf_file saved" and "c \<Longrightarrow> idle_file saved"
  shows "invariant c (TaskScheduler_init ts n saved)"
    and "inv_keys (TaskScheduler_init ts n saved)"
    and "inv_leak (TaskScheduler_init ts n saved)"
proof -
  let ?s0 = "\<lparr>objects = (\<lambda>_. Task_init [] [] JNull 0 1 3 300 3600 None), next_object = 0,
                 tasks = [], task_queue = [], max_concurrent_tasks = n,
                 running_tasks = [],
                 runners = (\<lambda>_. \<lparr>r_task = 0, r_phase = Done, r_cancel = False\<rparr>),
                 next_runner = 0, handlers = [], is_running = False,
                 storage = saved, callbacks = [], handler_calls = [], timestamp = ts\<rparr>"
  have q0: "quiet ?s0" by (simp add: quiet_def)
  have i0: "invariant c ?s0"
    unfolding quiet_invariant [OF q0] by (simp add: inv_tasks_def)
  have k0: "inv_keys ?s0" by (simp add: inv_keys_def)
  have "quiet (TaskScheduler_init ts n saved) \<and> invariant c (TaskScheduler_init ts n saved)
    \<and> inv_keys (TaskScheduler_init ts n saved)"
  proof (cases saved)
    case None
    with q0 i0 k0 show ?thesis by (simp add: TaskScheduler_init_def load_tasks_def)
  next
    case (Some items)
    have "quiet (load_items items ?s0) \<and> invariant c (load_items items ?s0)
      \<and> inv_keys (load_items items ?s0)"
    proof (rule load_items_invariant [OF q0 i0 k0])
      show "distinct (map fst (tasks ?s0) @ map fst items)"
        using assms(1) by (simp add: wf_file_def Some)
      show "list_all (\<lambda>(k, d). d_task_id d = Some k) items"
        using assms(1) by (simp add: wf_file_def Some)
      show "list_all (\<lambda>(k, d). d_status d \<noteq> Some Running) items" if c
        using assms(2) [OF that] by (simp add: idle_file_def Some)
    qed
    then show ?thesis by (simp add: TaskScheduler_init_def load_tasks_def Some)
  qed
  then show "invariant c (TaskScheduler_init ts n saved)"
    and "inv_keys (TaskScheduler_init ts n saved)"
    and "inv_leak (TaskScheduler_init ts n saved)"
    by (simp_all add: quiet_def inv_leak_def)
qed

text \<open>What holds at every point of a run from a new scheduler.\<close>

lemma invariants_reached:
  assumes "wf_file saved" and "fresh_ids (map fst (tasks (TaskScheduler_init ts n saved))) evs"
    and "c \<Longrightarrow> idle_file saved \<and> cancel_on_request (TaskScheduler_init ts n saved) evs"
  shows "invariant c (run (TaskScheduler_init ts n saved) evs)"
    and "inv_keys (run (TaskScheduler_init ts n saved) evs)"
    and "inv_leak (run (TaskScheduler_init ts n saved) evs)"
proof -
  have "invariant c (run (TaskScheduler_init ts n saved) evs)
    \<and> inv_keys (run (TaskScheduler_init ts n saved) evs)
    \<and> inv_leak (run (TaskScheduler_init ts n saved) evs)"
    by (rule invariants_run [OF invariant_init_file [OF assms(1)] assms(2)])
      (use assms(3) in simp_all)
  then show "invariant c (run (TaskScheduler_init ts n saved) evs)"
    and "inv_keys (run (TaskScheduler_init ts n saved) evs)"
    and "inv_leak (run (TaskScheduler_init ts n saved) evs)"
    by simp_all
qed
lemma load_items_timestamp [simp]: "timestamp (load_items items s) = timestamp s"
  by (induction items s rule: load_items.induct) (simp_all add: Let_def split: sum.splits)

lemma timestamp_init [simp]: "timestamp (TaskScheduler_init ts n saved) = ts"
  by (simp add: TaskScheduler_init_def load_tasks_def split: option.splits)

lemma tasks_step_other: "(\<And>t. ev \<noteq> Schedule t) \<Longrightarrow> tasks (step s ev) = tasks s"
proof (cases ev)
  case (Resume rid out n1 n2)
  then show ?thesis by (simp add: resume_effect)
qed (auto simp: register_handler_def cancel_task_def worker_iteration_def
      execute_task_begin_def start_def shutdown_stop_def shutdown_cancel_def
      shutdown_save_def Let_def split: option.splits)

lemma tasks_step_kept:
  assumes "map_of (tasks s) tid = Some r"
    and "\<And>t. ev = Schedule t \<Longrightarrow> task_id t \<notin> fst ` set (tasks s)"
  shows "map_of (tasks (step s ev)) tid = Some r"
proof (cases "\<exists>t. ev = Schedule t")
  case True
  then obtain t where t: "ev = Schedule t" by blast
  from assms(1) have "tid \<in> fst ` set (tasks s)"
    by (metis domI dom_map_of_conv_image_fst)
  with assms(2) [OF t] have "tid \<noteq> task_id t" by blast
  with assms(1) show ?thesis
    by (simp add: t step_Schedule AList.update_conv' del: step.simps)
next
  case False
  then have "tasks (step s ev) = tasks s" by (intro tasks_step_other) blast
  with assms(1) show ?thesis by simp
qed

lemma tasks_run_kept:
  "map_of (tasks s) tid = Some r \<Longrightarrow> fresh_ids (map fst (tasks s)) evs \<Longrightarrow>
     map_of (tasks (run s evs)) tid = Some r"
proof (induction evs arbitrary: s)
  case Nil
  then show ?case by simp
next
  case (Cons ev evs)
  have "map_of (tasks (step s ev)) tid = Some r"
    by (rule tasks_step_kept [OF Cons.prems(1)]) (use Cons.prems(2) in simp)
  moreover have "fresh_ids (map fst (tasks (step s ev))) evs"
    by (rule fresh_ids_step [OF Cons.prems(2)])
  ultimately show ?case using Cons.IH by simp
qed

lemma fresh_ids_split:
  "fresh_ids (map fst (tasks s)) (evs @ evs') \<Longrightarrow>
     fresh_ids (map fst (tasks s)) evs \<and> fresh_ids (map fst (tasks (run s evs))) evs'"
proof (induction evs arbitrary: s)
  case Nil
  then show ?case by simp
next
  case (Cons e evs)
  from Cons.prems have a: "fresh_ids (map fst (tasks s)) (e # (evs @ evs'))" by simp
  from Cons.IH [OF fresh_ids_step [OF a]]
  have b: "fresh_ids (map fst (tasks (step s e))) evs"
    and c: "fresh_ids (map fst (tasks (run (step s e) evs))) evs'"
    by simp_all
  have "fresh_ids (map fst (tasks s)) (e # evs)"
  proof (cases e)
    case (Schedule t)
    with a have f: "fresh_task t" and n: "task_id t \<notin> set (map fst (tasks s))" by simp_all
    have "set (map fst (tasks (step s e))) = set (task_id t # map fst (tasks s))"
      using n by (simp add: tasks_step Schedule del: step.simps)
    from fresh_ids_cong [OF this] b f n show ?thesis by (simp add: Schedule)
  qed (use b in \<open>simp_all add: tasks_step del: step.simps\<close>)
  with c show ?case by simp
qed

section \<open>The claims\<close>

subsection \<open>Example scenario\<close>

definition example_task :: "string \<Rightarrow> int \<Rightarrow> string option \<Rightarrow> task" where
  "example_task tid pr cb = Task_init tid ''web_scraping'' JNull 0 pr 3 300 3600 cb"

lemmas sched_defs =
  TaskScheduler_init_def load_tasks_def register_handler_def new_task_def schedule_task_def
  cancel_task_def execute_task_begin_def execute_task_resume_def except_block_def
  finally_block_def worker_iteration_def start_def shutdown_stop_def shutdown_cancel_def
  shutdown_save_def queue_get_def queue_put_def priority_item_def Task_init_def
  example_task_def save_tasks_def set_phase_def cancel_runner_def send_callback_def
  to_dict_def isoformat_def truthy_str_def add_seconds_def datetime_min_def datetime_max_def utc_def no_handler_message_def
  get_task_def Let_def

subsection \<open>C4: the order of the ready queue\<close>

text \<open>
  The worker dispatches the task under \<open>tid\<close>: it creates a runner and registers it
  under \<open>tid\<close> (lines 278-279).
\<close>

definition dispatches :: "scheduler \<Rightarrow> event \<Rightarrow> string \<Rightarrow> bool" where
  "dispatches s ev tid \<longleftrightarrow>
     next_runner (step s ev) \<noteq> next_runner s \<and>
     map_of (running_tasks (step s ev)) tid = Some (next_runner s)"

definition queued :: "scheduler \<Rightarrow> string \<Rightarrow> bool" where
  "queued s tid \<longleftrightarrow> tid \<in> snd ` set (task_queue s)"

lemma dispatches_worker:
  assumes "dispatches s ev tid" and ir: "inv_running s"
  shows "\<exists>now k q'. ev = Worker now \<and> queue_get (task_queue s) = Some ((k, tid), q')"
proof -
  from assms(1) have n: "next_runner (step s ev) \<noteq> next_runner s"
    and m: "map_of (running_tasks (step s ev)) tid = Some (next_runner s)"
    by (simp_all add: dispatches_def)
  have old: "map_of (running_tasks s) tid \<noteq> Some (next_runner s)"
    using inv_running_entry(1) [OF ir, of tid "next_runner s"] by auto
  show ?thesis
  proof (cases ev)
    case (Worker now)
    with n obtain k tid' q' r where g: "queue_get (task_queue s) = Some ((k, tid'), q')"
      and e: "running_tasks (step s ev) = AList.update tid' (next_runner s) (running_tasks s)"
      by (auto simp: worker_iteration_def Let_def split: option.splits if_splits)
    from m old have "tid' = tid" by (auto simp: e AList.update_conv' split: if_splits)
    with g Worker show ?thesis by blast
  next
    case (Resume rid out n1 n2)
    with n show ?thesis by (simp add: resume_effect split: if_splits)
  next
    case (Schedule t)
    with n show ?thesis by (simp add: step_Schedule del: step.simps)
  qed (use n in \<open>simp_all add: register_handler_def cancel_task_def
        execute_task_begin_def start_def shutdown_stop_def shutdown_cancel_def
        shutdown_save_def Let_def split: option.splits if_splits\<close>)
qed

lemma smaller_first:
  assumes inv: "invariant c s" and ik: "inv_keys s"
    and a: "get_task s a = Some ta" "queued s a"
    and b: "get_task s b = Some tb" "queued s b"
    and lt: "priority_item (timestamp s) ta < priority_item (timestamp s) tb"
  shows "\<not> dispatches s ev b" and "queued (step s ev) b"
proof -
  from inv have it: "inv_tasks s" and ir: "inv_running s" and iq: "inv_queue s"
    by (simp_all add: invariant_def)
  from a(2) obtain ka where ka: "(ka, a) \<in> set (task_queue s)" by (auto simp: queued_def)
  from b(2) obtain kb where kb: "(kb, b) \<in> set (task_queue s)" by (auto simp: queued_def)
  from inv_keys_entry [OF ik ka] a(1) have ka': "ka = priority_item (timestamp s) ta"
    by (auto simp: get_task_def)
  from inv_keys_entry [OF ik kb] b(1) have kb': "kb = priority_item (timestamp s) tb"
    by (auto simp: get_task_def)
  from lt have less: "(ka, a) < (kb, b)" by (simp add: ka' kb')
  from step_keeps_larger [OF ka kb less] show "queued (step s ev) b"
    by (force simp: queued_def)
  show "\<not> dispatches s ev b"
  proof
    assume "dispatches s ev b"
    from dispatches_worker [OF this ir] obtain now k q'
      where g: "queue_get (task_queue s) = Some ((k, b), q')" by blast
    from queue_get_Some [OF g] have mem: "(k, b) \<in> set (task_queue s)"
      and least: "\<forall>e \<in> set (task_queue s). (k, b) \<le> e" by simp_all
    from inv_keys_entry [OF ik mem] b(1) have "k = kb" by (auto simp: get_task_def kb')
    with least ka have "(kb, b) \<le> (ka, a)" by blast
    with less show False by (rule leD [THEN notE, rotated])
  qed
qed

lemma leaves_queue_dispatched:
  assumes a: "get_task s a = Some ta" "queued s a" "status ta \<noteq> Cancelled"
    and gone: "\<not> queued (step s ev) a"
  shows "dispatches s ev a"
proof (cases ev)
  case (Worker now)
  from gone a(2) have ne: "task_queue (step s ev) \<noteq> task_queue s" by (auto simp: queued_def)
  with Worker obtain k tid q' where g: "queue_get (task_queue s) = Some ((k, tid), q')"
    and w: "step s ev = worker_iteration s now"
      "\<not> max_concurrent_tasks s \<le> int (length (running_tasks s))"
    by (auto simp: worker_iteration_def split: if_splits option.splits)
  from queue_get_Some [OF g] have q': "q' = remove1 (k, tid) (task_queue s)" by simp
  from a(1) obtain r where r: "map_of (tasks s) a = Some r" "objects s r = ta"
    by (auto simp: get_task_def)
  have sub: "set q' \<subseteq> set (task_queue (step s ev))"
    using g w by (auto simp: worker_iteration_def queue_put_def Let_def split: option.splits)
  have "tid = a"
  proof (rule ccontr)
    assume "tid \<noteq> a"
    from a(2) obtain ka where "(ka, a) \<in> set (task_queue s)" by (auto simp: queued_def)
    with \<open>tid \<noteq> a\<close> have "(ka, a) \<in> set q'" by (simp add: q')
    with sub gone show False by (force simp: queued_def)
  qed
  have nr: "\<not> now < schedule_time ta"
  proof
    assume "now < schedule_time ta"
    with g w r a(3) \<open>tid = a\<close> have "(priority_item (timestamp s) ta, a) \<in> set (task_queue (step s ev))"
      by (simp add: worker_iteration_def queue_put_def Let_def)
    with gone show False by (force simp: queued_def)
  qed
  from g w r a(3) nr \<open>tid = a\<close> show ?thesis
    by (simp add: dispatches_def Worker worker_iteration_def Let_def AList.update_conv')
next
  case (Schedule t)
  with a(2) gone show ?thesis by (auto simp: queued_def step_Schedule simp del: step.simps)
next
  case (Cancel tid)
  with a(2) gone show ?thesis
    by (auto simp: queued_def cancel_task_def Let_def split: option.splits if_splits)
next
  case (Begin rid now)
  with a(2) gone show ?thesis
    by (auto simp: queued_def execute_task_begin_def Let_def split: if_splits)
next
  case (Resume rid out n1 n2)
  from resume_effect(1) [of s rid out n1 n2]
  have "set (task_queue s) \<subseteq> set (task_queue (execute_task_resume s rid out n1 n2))" by auto
  with Resume a(2) gone show ?thesis by (auto simp: queued_def split: if_splits)
qed (use a(2) gone in \<open>auto simp: queued_def register_handler_def start_def shutdown_stop_def
      shutdown_cancel_def shutdown_save_def split: if_splits\<close>)

text \<open>
  Two runs in which the worker dispatches the larger of two eligible tasks. In the
  first, the id \<open>a\<close> is scheduled twice, with priority 1 and then 7: the entry of the
  first call is popped and the task of priority 7 is dispatched, before \<open>b\<close> of priority
  2. In the second, the clock of the zone is put forward by an hour at 01:00, so that
  the datetimes from 01:00 to 02:00 are read with the old offset: \<open>x\<close>, scheduled for
  01:30, has a later timestamp than \<open>y\<close>, scheduled for 02:01:40, and \<open>y\<close> is dispatched
  first.
\<close>

definition stale_key :: "event list" where
  "stale_key =
     [Register ''web_scraping'', Start, Schedule (example_task ''a'' 1 None),
      Schedule (example_task ''a'' 7 None), Schedule (example_task ''b'' 2 None)]"

definition spring_forward :: "int \<Rightarrow> int" where
  "spring_forward t = (if t < 7200000000 then t else t - 3600000000)"

definition across_the_gap :: "event list" where
  "across_the_gap =
     [Register ''web_scraping'', Start,
      Schedule (Task_init ''x'' ''web_scraping'' JNull 5400000000 1 3 300 3600 None),
      Schedule (Task_init ''y'' ''web_scraping'' JNull 7300000000 1 3 300 3600 None)]"

theorem larger_task_dispatched_first:
  "map_option (\<lambda>t. (priority t, schedule_time t, status t))
       (get_task (run (TaskScheduler_init utc 5 None) stale_key) ''a'') = Some (7, 0, Scheduled)
   \<and> map_option (\<lambda>t. (priority t, schedule_time t, status t))
       (get_task (run (TaskScheduler_init utc 5 None) stale_key) ''b'') = Some (2, 0, Scheduled)
   \<and> dispatches (run (TaskScheduler_init utc 5 None) stale_key) (Worker 0) ''a''
   \<and> priority (objects (run (TaskScheduler_init utc 5 None) (stale_key @ [Worker 0]))
        (r_task (runners (run (TaskScheduler_init utc 5 None) (stale_key @ [Worker 0])) 0))) = 7
   \<and> map_option (\<lambda>t. (priority t, schedule_time t, status t))
       (get_task (run (TaskScheduler_init spring_forward 5 None) across_the_gap) ''x'')
       = Some (1, 5400000000, Scheduled)
   \<and> map_option (\<lambda>t. (priority t, schedule_time t, status t))
       (get_task (run (TaskScheduler_init spring_forward 5 None) across_the_gap) ''y'')
       = Some (1, 7300000000, Scheduled)
   \<and> dispatches (run (TaskScheduler_init spring_forward 5 None) across_the_gap)
        (Worker 8000000000) ''y''"
  by code_simp

text \<open>
  C4 (amended). Queue entries are totally ordered by ascending priority, then ascending
  timestamp of the schedule time, then ascending id, which is the order by priority,
  schedule time and id where the timestamp grows with the datetime; \<open>get\<close> fails
  exactly on the empty queue and otherwise removes an entry that is least in this order.
  Hence, in a run that starts on a file as \<open>save_tasks\<close> writes it (or none) and
  schedules new tasks under fresh ids only, of two queued tasks the smaller in this
  order is dispatched first: no event dispatches the larger, which stays queued, while
  the smaller is queued; a queued task that is not cancelled leaves the queue only by
  being dispatched; and the worker that pops the least entry with a slot free dispatches
  its task when it is not cancelled and its schedule time has come.
\<close>

theorem ready_queue_least_first:
  "((priority_item ts ta, ia :: string) \<le> (priority_item ts tb, ib) \<longleftrightarrow>
      (priority ta < priority tb \<or> priority ta = priority tb \<and>
        (ts (schedule_time ta) < ts (schedule_time tb) \<or>
         ts (schedule_time ta) = ts (schedule_time tb) \<and>
          (task_id ta < task_id tb \<or> task_id ta = task_id tb \<and> ia \<le> ib))))
   \<and> ((\<forall>x y. x < y \<longrightarrow> ts x < ts y) \<longrightarrow>
        (priority_item ts ta < priority_item ts tb \<longleftrightarrow>
           (priority ta, schedule_time ta, task_id ta)
             < (priority tb, schedule_time tb, task_id tb)))
   \<and> ((priority_item ts ta, ia) \<le> (priority_item ts tb, ib)
        \<or> (priority_item ts tb, ib) \<le> (priority_item ts ta, ia))
   \<and> (queue_get q = None \<longleftrightarrow> q = [])
   \<and> (\<forall>m q'. queue_get q = Some (m, q') \<longrightarrow>
          m \<in> set q \<and> (\<forall>e \<in> set q. m \<le> e) \<and> q' = remove1 m q)
   \<and> (wf_file saved \<and> fresh_ids (map fst (tasks (TaskScheduler_init ts n saved))) evs \<and>
       get_task (run (TaskScheduler_init ts n saved) evs) a = Some ta \<and>
       queued (run (TaskScheduler_init ts n saved) evs) a \<and>
       get_task (run (TaskScheduler_init ts n saved) evs) b = Some tb \<and>
       queued (run (TaskScheduler_init ts n saved) evs) b \<and>
       priority_item ts ta < priority_item ts tb \<longrightarrow>
         \<not> dispatches (run (TaskScheduler_init ts n saved) evs) ev b \<and>
         queued (step (run (TaskScheduler_init ts n saved) evs) ev) b)
   \<and> (get_task s a = Some ta \<and> queued s a \<and> status ta \<noteq> Cancelled \<and>
       \<not> queued (step s ev) a \<longrightarrow> dispatches s ev a)
   \<and> (\<forall>k tid q' r.
          int (length (running_tasks s)) < max_concurrent_tasks s \<and>
          queue_get (task_queue s) = Some ((k, tid), q') \<and>
          map_of (tasks s) tid = Some r \<and> status (objects s r) \<noteq> Cancelled \<and>
          schedule_time (objects s r) \<le> now \<longrightarrow>
          task_queue (worker_iteration s now) = q' \<and>
          runners (worker_iteration s now) (next_runner s) =
            \<lparr>r_task = r, r_phase = Pending, r_cancel = False\<rparr> \<and>
          map_of (running_tasks (worker_iteration s now)) tid = Some (next_runner s))"
proof -
  have order: "(priority_item ts ta, ia :: string) \<le> (priority_item ts tb, ib)
      \<or> (priority_item ts tb, ib) \<le> (priority_item ts ta, ia)"
    by (rule linear)
  have mono: "(\<forall>x y. x < y \<longrightarrow> ts x < ts y) \<longrightarrow>
      (priority_item ts ta < priority_item ts tb \<longleftrightarrow>
         (priority ta, schedule_time ta, task_id ta)
           < (priority tb, schedule_time tb, task_id tb))"
  proof
    assume m: "\<forall>x y. x < y \<longrightarrow> ts x < ts y"
    have lt: "ts x < ts y \<longleftrightarrow> x < y" for x y :: int
      using m by (metis less_asym less_irrefl not_less_iff_gr_or_eq)
    have le: "ts x \<le> ts y \<longleftrightarrow> x \<le> y" for x y :: int
      using lt [of y x] by (simp add: not_less [symmetric])
    show "priority_item ts ta < priority_item ts tb \<longleftrightarrow>
         (priority ta, schedule_time ta, task_id ta)
           < (priority tb, schedule_time tb, task_id tb)"
      by (simp add: priority_item_def less_prod_def lt le)
  qed
  have pop: "\<forall>m q'. queue_get q = Some (m, q') \<longrightarrow>
      m \<in> set q \<and> (\<forall>e \<in> set q. m \<le> e) \<and> q' = remove1 m q"
    using queue_get_Some by blast
  have first: "\<not> dispatches (run (TaskScheduler_init ts n saved) evs) ev b \<and>
      queued (step (run (TaskScheduler_init ts n saved) evs) ev) b"
    if h: "wf_file saved \<and> fresh_ids (map fst (tasks (TaskScheduler_init ts n saved))) evs \<and>
       get_task (run (TaskScheduler_init ts n saved) evs) a = Some ta \<and>
       queued (run (TaskScheduler_init ts n saved) evs) a \<and>
       get_task (run (TaskScheduler_init ts n saved) evs) b = Some tb \<and>
       queued (run (TaskScheduler_init ts n saved) evs) b \<and>
       priority_item ts ta < priority_item ts tb"
  proof -
    let ?s = "run (TaskScheduler_init ts n saved) evs"
    from h have wf: "wf_file saved"
      and fr: "fresh_ids (map fst (tasks (TaskScheduler_init ts n saved))) evs"
      by simp_all
    have inv: "invariant False ?s" and ik: "inv_keys ?s"
      by (rule invariants_reached [OF wf fr], simp)+
    from h have lt: "priority_item (timestamp ?s) ta < priority_item (timestamp ?s) tb"
      by simp
    from h smaller_first [OF inv ik _ _ _ _ lt, of a b ev] show ?thesis by simp
  qed
  have gone: "get_task s a = Some ta \<and> queued s a \<and> status ta \<noteq> Cancelled \<and>
       \<not> queued (step s ev) a \<longrightarrow> dispatches s ev a"
    using leaves_queue_dispatched [of s a ta ev] by blast
  have dispatch: "\<forall>k tid q' r.
      int (length (running_tasks s)) < max_concurrent_tasks s \<and>
      queue_get (task_queue s) = Some ((k, tid), q') \<and>
      map_of (tasks s) tid = Some r \<and> status (objects s r) \<noteq> Cancelled \<and>
      schedule_time (objects s r) \<le> now \<longrightarrow>
      task_queue (worker_iteration s now) = q' \<and>
      runners (worker_iteration s now) (next_runner s) =
        \<lparr>r_task = r, r_phase = Pending, r_cancel = False\<rparr> \<and>
      map_of (running_tasks (worker_iteration s now)) tid = Some (next_runner s)"
    by (auto simp: worker_dispatch AList.update_conv')
  show ?thesis
    using entry_le_iff [of ts ta ia tb ib] mono order queue_get_None [of q] pop first gone
      dispatch
    by blast
qed

text \<open>The spec's scenario of two tasks of priority 5 and 1 with one schedule time and
  \<open>max_concurrent_tasks = 1\<close>.\<close>

definition two_priorities :: "event list" where
  "two_priorities =
     [Start, Schedule (example_task ''b'' 5 None), Schedule (example_task ''a'' 1 None)]"

theorem ready_queue_least_first_witness:
  "wf_file None \<and> fresh_ids (map fst (tasks (TaskScheduler_init utc 1 None))) two_priorities
   \<and> map_option priority (get_task (run (TaskScheduler_init utc 1 None) two_priorities) ''a'')
       = Some 1
   \<and> map_option priority (get_task (run (TaskScheduler_init utc 1 None) two_priorities) ''b'')
       = Some 5
   \<and> queued (run (TaskScheduler_init utc 1 None) two_priorities) ''a''
   \<and> queued (run (TaskScheduler_init utc 1 None) two_priorities) ''b''
   \<and> \<not> dispatches (run (TaskScheduler_init utc 1 None) two_priorities) (Worker 0) ''b''
   \<and> queued (step (run (TaskScheduler_init utc 1 None) two_priorities) (Worker 0)) ''b''
   \<and> dispatches (run (TaskScheduler_init utc 1 None) two_priorities) (Worker 0) ''a''"
proof -
  let ?s = "run (TaskScheduler_init utc 1 None) two_priorities"
  have e: "wf_file None"
    "fresh_ids (map fst (tasks (TaskScheduler_init utc 1 None))) two_priorities"
    "get_task ?s ''a'' = Some (example_task ''a'' 1 None)"
    "get_task ?s ''b'' = Some (example_task ''b'' 5 None)"
    "queued ?s ''a''" "queued ?s ''b''"
    "priority_item utc (example_task ''a'' 1 None) < priority_item utc (example_task ''b'' 5 None)"
    "status (example_task ''a'' 1 None) \<noteq> Cancelled"
    "\<not> queued (step ?s (Worker 0)) ''a''"
    "priority (example_task ''a'' 1 None) = 1" "priority (example_task ''b'' 5 None) = 5"
    by code_simp+
  note inst = ready_queue_least_first [where ts = utc and n = 1 and saved = None
      and evs = two_priorities and a = "''a''" and b = "''b''"
      and ta = "example_task ''a'' 1 None" and tb = "example_task ''b'' 5 None"
      and ev = "Worker 0" and s = ?s]
  note first = inst [THEN conjunct2, THEN conjunct2, THEN conjunct2, THEN conjunct2,
      THEN conjunct2, THEN conjunct1, rule_format]
  note gone = inst [THEN conjunct2, THEN conjunct2, THEN conjunct2, THEN conjunct2,
      THEN conjunct2, THEN conjunct2, THEN conjunct1, rule_format]
  have 1: "\<not> dispatches ?s (Worker 0) ''b'' \<and> queued (step ?s (Worker 0)) ''b''"
    by (rule first) (simp add: e)
  have 2: "dispatches ?s (Worker 0) ''a''"
    by (rule gone) (intro conjI e(3) e(5) e(8) e(9))
  from 1 2 e show ?thesis by simp
qed

subsection \<open>C10: scheduling an id that is already present\<close>





subsection \<open>C9 and C3: a task type without a handler\<close>

lemma begin_without_handler:
  assumes "task_type (objects s (r_task (runners s rid))) \<notin> set (handlers s)"
  shows "execute_task_begin s rid now =
           set_phase rid Done (save_tasks (s\<lparr>objects := (objects s)(r_task (runners s rid) :=
             (objects s (r_task (runners s rid)))\<lparr>status := Failed,
                error := Some (no_handler_message (objects s (r_task (runners s rid))))\<rparr>)\<rparr>))"
  using assms by (simp add: execute_task_begin_def Let_def)

lemma done_runner_never_runs:
  assumes "r_phase (runners s rid) = Done"
  shows "step s (Begin rid now) = s" and "step s (Resume rid out now1 now2) = s"
  using assms by simp_all

text \<open>
  C9. When the runner \<open>rid\<close> begins \<open>_execute_task\<close> for a task whose type has no
  handler, the task becomes Failed with the no-handler message as its error, its
  \<open>start_time\<close> and \<open>end_time\<close> stay as they were (None for a task that never ran), the
  runner is done and \<open>running_tasks\<close> is what it was. The runner never runs again, so the
  \<open>finally\<close> block that would delete the entry is not reached: after the worker has
  dispatched such a task and its runner has run, the entry the worker added is still in
  \<open>running_tasks\<close> and counts against \<open>max_concurrent_tasks\<close>.
\<close>

theorem no_handler_keeps_running_entry:
  "(task_type (objects s (r_task (runners s rid))) \<notin> set (handlers s) \<longrightarrow>
      status (objects (execute_task_begin s rid now) (r_task (runners s rid))) = Failed
    \<and> error (objects (execute_task_begin s rid now) (r_task (runners s rid))) =
        Some (no_handler_message (objects s (r_task (runners s rid))))
    \<and> start_time (objects (execute_task_begin s rid now) (r_task (runners s rid))) =
        start_time (objects s (r_task (runners s rid)))
    \<and> end_time (objects (execute_task_begin s rid now) (r_task (runners s rid))) =
        end_time (objects s (r_task (runners s rid)))
    \<and> running_tasks (execute_task_begin s rid now) = running_tasks s
    \<and> r_phase (runners (execute_task_begin s rid now) rid) = Done
    \<and> step (execute_task_begin s rid now) (Begin rid now') = execute_task_begin s rid now
    \<and> step (execute_task_begin s rid now) (Resume rid out now1 now2) =
        execute_task_begin s rid now)
   \<and> (int (length (running_tasks s)) < max_concurrent_tasks s \<and>
      queue_get (task_queue s) = Some ((k, tid), q') \<and> map_of (tasks s) tid = Some r \<and>
      status (objects s r) \<noteq> Cancelled \<and> schedule_time (objects s r) \<le> now \<and>
      task_type (objects s r) \<notin> set (handlers s) \<longrightarrow>
      map_of (running_tasks (step (worker_iteration s now) (Begin (next_runner s) now'))) tid
        = Some (next_runner s)
    \<and> length (running_tasks (step (worker_iteration s now) (Begin (next_runner s) now')))
        = length (running_tasks (worker_iteration s now))
    \<and> r_phase (runners (step (worker_iteration s now) (Begin (next_runner s) now'))
        (next_runner s)) = Done
    \<and> status (objects (step (worker_iteration s now) (Begin (next_runner s) now')) r) = Failed
    \<and> start_time (objects (step (worker_iteration s now) (Begin (next_runner s) now')) r)
        = start_time (objects s r)
    \<and> end_time (objects (step (worker_iteration s now) (Begin (next_runner s) now')) r)
        = end_time (objects s r))"
proof (intro conjI impI)
  assume a: "int (length (running_tasks s)) < max_concurrent_tasks s \<and>
      queue_get (task_queue s) = Some ((k, tid), q') \<and> map_of (tasks s) tid = Some r \<and>
      status (objects s r) \<noteq> Cancelled \<and> schedule_time (objects s r) \<le> now \<and>
      task_type (objects s r) \<notin> set (handlers s)"
  then have w: "worker_iteration s now =
           s\<lparr>task_queue := q',
             runners := (runners s)(next_runner s :=
                          \<lparr>r_task = r, r_phase = Pending, r_cancel = False\<rparr>),
             next_runner := Suc (next_runner s),
             running_tasks := AList.update tid (next_runner s) (running_tasks s)\<rparr>"
    by (intro worker_dispatch) simp_all
  define s1 where "s1 = worker_iteration s now"
  have f: "objects s1 = objects s" "handlers s1 = handlers s"
    "runners s1 (next_runner s) = \<lparr>r_task = r, r_phase = Pending, r_cancel = False\<rparr>"
    "map_of (running_tasks s1) tid = Some (next_runner s)"
    by (simp_all add: s1_def w AList.update_conv')
  have nh: "task_type (objects s1 (r_task (runners s1 (next_runner s)))) \<notin> set (handlers s1)"
    using a by (simp add: f)
  have s2: "step s1 (Begin (next_runner s) now') = execute_task_begin s1 (next_runner s) now'"
    by (simp add: f)
  note b = s2 begin_without_handler [OF nh]
  show "map_of (running_tasks (step (worker_iteration s now) (Begin (next_runner s) now'))) tid
      = Some (next_runner s)"
    unfolding s1_def [symmetric] by (simp only: b) (simp add: f)
  show "length (running_tasks (step (worker_iteration s now) (Begin (next_runner s) now')))
      = length (running_tasks (worker_iteration s now))"
    unfolding s1_def [symmetric] by (simp only: b) simp
  show "r_phase (runners (step (worker_iteration s now) (Begin (next_runner s) now'))
      (next_runner s)) = Done"
    unfolding s1_def [symmetric] by (simp only: b) simp
  show "status (objects (step (worker_iteration s now) (Begin (next_runner s) now')) r) = Failed"
    unfolding s1_def [symmetric] by (simp only: b) (simp add: f)
  show "start_time (objects (step (worker_iteration s now) (Begin (next_runner s) now')) r)
      = start_time (objects s r)"
    unfolding s1_def [symmetric] by (simp only: b) (simp add: f)
  show "end_time (objects (step (worker_iteration s now) (Begin (next_runner s) now')) r)
      = end_time (objects s r)"
    unfolding s1_def [symmetric] by (simp only: b) (simp add: f)
qed (simp_all add: begin_without_handler)

text \<open>A task with a callback url whose type has no handler: scheduled, dispatched by the
  worker at time 0, and run at time 1.\<close>

definition scenario_no_handler :: scheduler where
  "scenario_no_handler = run (TaskScheduler_init utc 5 None)
     [Start, Schedule (example_task ''t1'' 1 (Some ''http://cb''))]"

lemma scenario_no_handler_fields:
  "tasks scenario_no_handler = [(''t1'', 0)]" "running_tasks scenario_no_handler = []"
  "task_queue scenario_no_handler = [((1, 0, ''t1''), ''t1'')]"
  "max_concurrent_tasks scenario_no_handler = 5" "next_runner scenario_no_handler = 0"
  "objects scenario_no_handler 0 = example_task ''t1'' 1 (Some ''http://cb'')"
  "handlers scenario_no_handler = []" "is_running scenario_no_handler"
  "callbacks scenario_no_handler = []"
  by (simp_all add: scenario_no_handler_def sched_defs)

theorem no_handler_keeps_running_entry_witness:
  "map_of (running_tasks (run scenario_no_handler [Worker 0, Begin 0 1])) ''t1'' = Some 0
   \<and> length (running_tasks (run scenario_no_handler [Worker 0, Begin 0 1])) = 1
   \<and> r_phase (runners (run scenario_no_handler [Worker 0, Begin 0 1]) 0) = Done
   \<and> status (objects (run scenario_no_handler [Worker 0, Begin 0 1]) 0) = Failed
   \<and> start_time (objects (run scenario_no_handler [Worker 0, Begin 0 1]) 0) = None
   \<and> end_time (objects (run scenario_no_handler [Worker 0, Begin 0 1]) 0) = None"
proof -
  have pre: "int (length (running_tasks scenario_no_handler))
        < max_concurrent_tasks scenario_no_handler \<and>
      queue_get (task_queue scenario_no_handler) = Some (((1, 0, ''t1''), ''t1''), []) \<and>
      map_of (tasks scenario_no_handler) ''t1'' = Some 0 \<and>
      status (objects scenario_no_handler 0) \<noteq> Cancelled \<and>
      schedule_time (objects scenario_no_handler 0) \<le> 0 \<and>
      task_type (objects scenario_no_handler 0) \<notin> set (handlers scenario_no_handler)"
    by (simp add: scenario_no_handler_fields queue_get_def example_task_def Task_init_def)
  have len: "length (running_tasks (worker_iteration scenario_no_handler 0)) = 1"
    by (simp add: worker_iteration_def scenario_no_handler_fields queue_get_def
        example_task_def Task_init_def)
  note inst = no_handler_keeps_running_entry [where s = scenario_no_handler and now = 0
      and now' = 1 and k = "(1, 0, ''t1'')" and tid = "''t1''" and q' = "[]" and r = 0,
      THEN conjunct2, rule_format, OF pre]
  from inst len show ?thesis
    by (simp add: scenario_no_handler_fields example_task_def Task_init_def)
qed

subsection \<open>C3: no callback is sent for a task without a handler\<close>

text \<open>The same task with a handler that raises and no retry left.\<close>

definition scenario_handler_raises :: scheduler where
  "scenario_handler_raises = run (TaskScheduler_init utc 5 None)
     [Register ''web_scraping'', Start,
      Schedule (Task_init ''t1'' ''web_scraping'' JNull 0 1 0 300 3600 (Some ''http://cb'')),
      Worker 0, Begin 0 1, Resume 0 (Raised ''boom'') 2 3]"

text \<open>
  C3. For a task with a callback url whose type has no handler, \<open>_execute_task\<close> sets
  the status to Failed and the error to the no-handler message, attempts no retry (the
  retry count stays 0 and the queue stays empty) and saves the task set, and then
  returns before its \<open>try\<close>: the task ends Failed with its callback url set, and no
  callback has been sent, the runner being done. On the sibling path, where a handler
  raises and no retry is left, the task ends Failed as well and the callback carrying
  the serialized task is sent.
\<close>

theorem no_handler_sends_no_callback:
  "status (objects (run scenario_no_handler [Worker 0, Begin 0 1]) 0) = Failed
   \<and> error (objects (run scenario_no_handler [Worker 0, Begin 0 1]) 0) =
       Some ''No handler registered for task type: web_scraping''
   \<and> retry_count (objects (run scenario_no_handler [Worker 0, Begin 0 1]) 0) = 0
   \<and> task_queue (run scenario_no_handler [Worker 0, Begin 0 1]) = []
   \<and> storage (run scenario_no_handler [Worker 0, Begin 0 1]) =
       Some [(''t1'', to_dict (objects (run scenario_no_handler [Worker 0, Begin 0 1]) 0))]
   \<and> callback_url (objects (run scenario_no_handler [Worker 0, Begin 0 1]) 0) = Some ''http://cb''
   \<and> r_phase (runners (run scenario_no_handler [Worker 0, Begin 0 1]) 0) = Done
   \<and> callbacks (run scenario_no_handler [Worker 0, Begin 0 1]) = []
   \<and> status (objects scenario_handler_raises 0) = Failed
   \<and> callbacks scenario_handler_raises =
       [(''http://cb'', to_dict (objects scenario_handler_raises 0))]"
  by code_simp

subsection \<open>C5: serialization and reload\<close>




definition is_scheduled :: "scheduler \<Rightarrow> string \<times> nat \<Rightarrow> bool" where
  "is_scheduled s = (\<lambda>(tid, r). status (objects s r) = Scheduled)"



lemma is_scheduled_simp [simp]: "is_scheduled s (tid, r) \<longleftrightarrow> status (objects s r) = Scheduled"
  by (simp add: is_scheduled_def)












subsection \<open>C7: cancelling\<close>

text \<open>A cancelled task object that no runner will touch again: its status is Cancelled
  and every runner on it that is not done has been cancelled before its first run.\<close>

definition cancelled_for_good :: "scheduler \<Rightarrow> nat \<Rightarrow> bool" where
  "cancelled_for_good s r \<longleftrightarrow>
     status (objects s r) = Cancelled \<and> r < next_object s \<and>
     (\<forall>rid. r_task (runners s rid) = r \<and> r_phase (runners s rid) \<noteq> Done
        \<longrightarrow> r_cancel (runners s rid) \<and> r_phase (runners s rid) = Pending)"

definition calls_of :: "scheduler \<Rightarrow> nat \<Rightarrow> nat" where
  "calls_of s r = length (filter (\<lambda>x. x = r) (handler_calls s))"

lemma cancelled_for_good_step:
  assumes "cancelled_for_good s r"
  shows "cancelled_for_good (step s ev) r \<and> calls_of (step s ev) r = calls_of s r"
proof (cases ev)
  case (Register ty)
  with assms show ?thesis
    by (simp add: cancelled_for_good_def calls_of_def register_handler_def)
next
  case (Schedule t)
  with assms show ?thesis
    by (simp add: cancelled_for_good_def calls_of_def new_task_def schedule_task_def Let_def)
next
  case (Cancel tid)
  with assms show ?thesis
    by (auto simp: cancelled_for_good_def calls_of_def cancel_task_def Let_def
        split: option.splits)
next
  case (Worker now)
  with assms show ?thesis
    by (auto simp: cancelled_for_good_def calls_of_def worker_iteration_def Let_def
        split: option.splits)
next
  case (Begin rid now)
  with assms show ?thesis
    by (auto simp: cancelled_for_good_def calls_of_def execute_task_begin_def Let_def)
next
  case (Resume rid out n1 n2)
  show ?thesis
  proof (cases "r_phase (runners s rid) = Awaiting")
    case False
    with assms Resume show ?thesis by auto
  next
    case True
    with assms have other: "r_task (runners s rid) \<noteq> r"
      by (auto simp: cancelled_for_good_def)
    with True assms Resume show ?thesis
      by (cases out)
        (auto simp: cancelled_for_good_def calls_of_def execute_task_resume_def
          finally_block_def except_block_def Let_def split: option.splits)
  qed
next
  case Start
  with assms show ?thesis by (simp add: cancelled_for_good_def calls_of_def start_def)
next
  case ShutdownStop
  with assms show ?thesis by (simp add: cancelled_for_good_def calls_of_def shutdown_stop_def)
next
  case ShutdownCancel
  with assms show ?thesis
    by (auto simp: cancelled_for_good_def calls_of_def shutdown_cancel_def
        cancel_all_cancel_mono cancel_all_status_cancelled)
next
  case ShutdownSave
  with assms show ?thesis by (simp add: cancelled_for_good_def calls_of_def shutdown_save_def)
qed

lemma cancelled_for_good_run:
  "cancelled_for_good s r \<Longrightarrow>
     cancelled_for_good (run s evs) r \<and> calls_of (run s evs) r = calls_of s r"
proof (induction evs arbitrary: s)
  case Nil
  then show ?case by simp
next
  case (Cons e evs)
  from cancelled_for_good_step [OF Cons.prems, of e]
  have 1: "cancelled_for_good (step s e) r" and 2: "calls_of (step s e) r = calls_of s r"
    by simp_all
  from Cons.IH [OF 1] 2 show ?case by simp
qed

lemma cancel_task_result:
  "fst (cancel_task s tid) \<longleftrightarrow>
     (\<exists>r. map_of (tasks s) tid = Some r \<and>
        (status (objects s r) = Scheduled \<or> status (objects s r) = Running))"
  "fst (cancel_task s tid) \<Longrightarrow> map_of (tasks s) tid = Some r \<Longrightarrow>
     status (objects (snd (cancel_task s tid)) r) = Cancelled"
  "\<not> fst (cancel_task s tid) \<Longrightarrow> snd (cancel_task s tid) = s"
  by (auto simp: cancel_task_def Let_def split: option.splits)

lemma worker_drops_cancelled:
  assumes "queue_get (task_queue s) = Some ((k, tid), q')" and "map_of (tasks s) tid = Some r"
    and "status (objects s r) = Cancelled"
  shows "worker_iteration s now =
     (if max_concurrent_tasks s \<le> int (length (running_tasks s)) then s
      else s\<lparr>task_queue := q'\<rparr>)"
  using assms by (simp add: worker_iteration_def Let_def)

lemma cancel_scheduled_for_good:
  assumes inv: "invariant c s" and t: "map_of (tasks s) tid = Some r"
    and st: "status (objects s r) = Scheduled"
  shows "cancelled_for_good (snd (cancel_task s tid)) r"
    and "calls_of (snd (cancel_task s tid)) r = calls_of s r"
proof -
  from inv have it: "inv_tasks s" and ir: "inv_running s" and irn: "inv_runners s"
    by (simp_all add: invariant_def)
  have live: "map_of (running_tasks s) tid = Some rid \<and> r_phase (runners s rid) = Pending"
    if "r_task (runners s rid) = r" "r_phase (runners s rid) \<noteq> Done" for rid
  proof -
    from inv_runners_live [OF irn that(2)] that(1) st inv_tasks_ref(2) [OF it t]
    show ?thesis by (auto simp: runner_status_def split: if_splits)
  qed
  define s' where "s' = snd (cancel_task s tid)"
  have f: "status (objects s' r) = Cancelled" "next_object s' = next_object s"
    "r_task (runners s' rid) = r_task (runners s rid)"
    "r_phase (runners s' rid) = r_phase (runners s rid)" for rid
    using t st by (auto simp: s'_def cancel_task_def Let_def split: option.splits)
  have c: "r_cancel (runners s' rid)"
    if "map_of (running_tasks s) tid = Some rid" "r_phase (runners s rid) = Pending" for rid
    using t st that by (simp add: s'_def cancel_task_def Let_def)
  have "cancelled_for_good s' r"
    unfolding cancelled_for_good_def
  proof (intro conjI allI impI)
    show "status (objects s' r) = Cancelled" by (rule f)
    show "r < next_object s'" using inv_tasks_ref(1) [OF it t] by (simp add: f)
  next
    fix rid assume "r_task (runners s' rid) = r \<and> r_phase (runners s' rid) \<noteq> Done"
    then have "r_task (runners s rid) = r" "r_phase (runners s rid) \<noteq> Done"
      by (simp_all add: f)
    note l = live [OF this]
    from c [OF l [THEN conjunct1] l [THEN conjunct2]] l
    show "r_cancel (runners s' rid)" and "r_phase (runners s' rid) = Pending"
      by (simp_all add: f)
  qed
  then show "cancelled_for_good (snd (cancel_task s tid)) r" by (simp add: s'_def)
  from t st show "calls_of (snd (cancel_task s tid)) r = calls_of s r"
    by (auto simp: cancel_task_def calls_of_def Let_def split: option.splits)
qed

text \<open>
  The id \<open>a\<close> is scheduled twice and both queue entries are dispatched before either
  runner first runs; both runners are on the second task, and only the second is
  registered. \<open>cancel_task\<close> then cancels the task, which is still Scheduled, and the
  registered runner; the first runner sets the cancelled task Running and calls its
  handler.
\<close>

definition dispatched_twice :: "event list" where
  "dispatched_twice =
     [Register ''web_scraping'', Start, Schedule (example_task ''a'' 1 None),
      Schedule (example_task ''a'' 7 None), Worker 0, Worker 0]"

theorem cancelled_task_executed:
  "map_of (tasks (run (TaskScheduler_init utc 5 None) dispatched_twice)) ''a'' = Some 1
   \<and> status (objects (run (TaskScheduler_init utc 5 None) dispatched_twice) 1) = Scheduled
   \<and> fst (cancel_task (run (TaskScheduler_init utc 5 None) dispatched_twice) ''a'')
   \<and> status (objects (snd (cancel_task (run (TaskScheduler_init utc 5 None) dispatched_twice)
         ''a'')) 1) = Cancelled
   \<and> status (objects (run (snd (cancel_task (run (TaskScheduler_init utc 5 None)
         dispatched_twice) ''a'')) [Begin 0 1]) 1) = Running
   \<and> handler_calls (run (snd (cancel_task (run (TaskScheduler_init utc 5 None)
         dispatched_twice) ''a'')) [Begin 0 1]) = [1]"
  by code_simp

text \<open>
  C7 (amended). \<open>cancel_task(id)\<close> returns True exactly when a task with that id exists
  and its status is Scheduled or Running, and then the task's status is Cancelled;
  otherwise it returns False and the scheduler is unchanged. A worker that has a free
  slot and pops the queue entry of a Cancelled task removes the entry and does nothing
  else (no runner is created; without a free slot it does nothing at all). And in a run
  that starts on a file as \<open>save_tasks\<close> writes it (or none) and has scheduled new tasks
  under fresh ids only, once a Scheduled task has been cancelled, then whatever events
  follow, its status stays Cancelled and the number of handler calls made with it never
  grows; it remains the task under its id while the ids scheduled stay fresh.
\<close>

theorem cancel_task_and_dispatch:
  "(fst (cancel_task s tid) \<longleftrightarrow>
      (\<exists>r. map_of (tasks s) tid = Some r \<and>
         (status (objects s r) = Scheduled \<or> status (objects s r) = Running)))
   \<and> (fst (cancel_task s tid) \<longrightarrow>
        (\<forall>r. map_of (tasks s) tid = Some r \<longrightarrow>
           status (objects (snd (cancel_task s tid)) r) = Cancelled))
   \<and> (\<not> fst (cancel_task s tid) \<longrightarrow> snd (cancel_task s tid) = s)
   \<and> (queue_get (task_queue s) = Some ((k, tid), q') \<and> map_of (tasks s) tid = Some r \<and>
        status (objects s r) = Cancelled \<longrightarrow>
        worker_iteration s now =
          (if max_concurrent_tasks s \<le> int (length (running_tasks s)) then s
           else s\<lparr>task_queue := q'\<rparr>))
   \<and> (wf_file saved \<and> fresh_ids (map fst (tasks (TaskScheduler_init ts n saved))) evs \<and>
       map_of (tasks (run (TaskScheduler_init ts n saved) evs)) tid = Some r \<and>
       status (objects (run (TaskScheduler_init ts n saved) evs) r) = Scheduled \<longrightarrow>
        fst (cancel_task (run (TaskScheduler_init ts n saved) evs) tid) \<and>
        status (objects (run (TaskScheduler_init ts n saved) (evs @ Cancel tid # evs')) r)
          = Cancelled \<and>
        calls_of (run (TaskScheduler_init ts n saved) (evs @ Cancel tid # evs')) r
          = calls_of (run (TaskScheduler_init ts n saved) evs) r \<and>
        (fresh_ids (map fst (tasks (TaskScheduler_init ts n saved))) (evs @ Cancel tid # evs')
           \<longrightarrow> map_of (tasks (run (TaskScheduler_init ts n saved) (evs @ Cancel tid # evs'))) tid
                 = Some r))"
proof (intro conjI impI allI)
  let ?s = "run (TaskScheduler_init ts n saved) evs"
  assume a: "wf_file saved \<and> fresh_ids (map fst (tasks (TaskScheduler_init ts n saved))) evs \<and>
       map_of (tasks ?s) tid = Some r \<and> status (objects ?s r) = Scheduled"
  then have t: "map_of (tasks ?s) tid = Some r" and st: "status (objects ?s r) = Scheduled"
    by simp_all
  from a have inv: "invariant False ?s"
    by (intro invariants_reached(1)) simp_all
  from t st show "fst (cancel_task ?s tid)" by (simp add: cancel_task_result(1))
  have e: "run (TaskScheduler_init ts n saved) (evs @ Cancel tid # evs')
      = run (snd (cancel_task ?s tid)) evs'"
    by (simp add: run_def)
  note g = cancel_scheduled_for_good [OF inv t st]
  from cancelled_for_good_run [OF g(1), of evs'] g(2)
  show "status (objects (run (TaskScheduler_init ts n saved) (evs @ Cancel tid # evs')) r)
          = Cancelled"
    and "calls_of (run (TaskScheduler_init ts n saved) (evs @ Cancel tid # evs')) r
          = calls_of ?s r"
    by (simp_all add: e cancelled_for_good_def)
  {
    assume f: "fresh_ids (map fst (tasks (TaskScheduler_init ts n saved)))
      (evs @ Cancel tid # evs')"
    from fresh_ids_split [OF f] have "fresh_ids (map fst (tasks ?s)) (Cancel tid # evs')"
      by simp
    from tasks_run_kept [OF t this]
    show "map_of (tasks (run (TaskScheduler_init ts n saved) (evs @ Cancel tid # evs'))) tid
        = Some r"
      by (simp add: run_def)
  }
qed (simp_all add: cancel_task_result worker_drops_cancelled)

text \<open>A registered handler and one scheduled task \<open>a\<close>, not yet dispatched; then the
  cancellation, a worker iteration and the events of a runner 0, which does not exist.\<close>

definition one_scheduled :: "event list" where
  "one_scheduled = [Register ''web_scraping'', Start, Schedule (example_task ''a'' 1 None)]"

definition after_cancel :: "event list" where
  "after_cancel = [Worker 0, Begin 0 1, Resume 0 (Returned JNull) 2 2]"

theorem cancel_task_and_dispatch_witness:
  "wf_file None
   \<and> fresh_ids (map fst (tasks (TaskScheduler_init utc 5 None)))
        (one_scheduled @ Cancel ''a'' # after_cancel)
   \<and> map_of (tasks (run (TaskScheduler_init utc 5 None) one_scheduled)) ''a'' = Some 0
   \<and> status (objects (run (TaskScheduler_init utc 5 None) one_scheduled) 0) = Scheduled
   \<and> fst (cancel_task (run (TaskScheduler_init utc 5 None) one_scheduled) ''a'')
   \<and> status (objects (run (TaskScheduler_init utc 5 None)
        (one_scheduled @ Cancel ''a'' # after_cancel)) 0) = Cancelled
   \<and> calls_of (run (TaskScheduler_init utc 5 None)
        (one_scheduled @ Cancel ''a'' # after_cancel)) 0 = 0
   \<and> map_of (tasks (run (TaskScheduler_init utc 5 None)
        (one_scheduled @ Cancel ''a'' # after_cancel))) ''a'' = Some 0
   \<and> task_queue (run (TaskScheduler_init utc 5 None) (one_scheduled @ [Cancel ''a'', Worker 0]))
        = []
   \<and> next_runner (run (TaskScheduler_init utc 5 None) (one_scheduled @ [Cancel ''a'', Worker 0]))
        = 0
   \<and> \<not> fst (cancel_task (run (TaskScheduler_init utc 5 None) one_scheduled) ''zz'')"
proof -
  let ?s = "run (TaskScheduler_init utc 5 None) one_scheduled"
  have e: "wf_file None"
    "fresh_ids (map fst (tasks (TaskScheduler_init utc 5 None))) one_scheduled"
    "map_of (tasks ?s) ''a'' = Some 0"
    "status (objects ?s 0) = Scheduled"
    and f: "fresh_ids (map fst (tasks (TaskScheduler_init utc 5 None)))
        (one_scheduled @ Cancel ''a'' # after_cancel)"
    and c0: "calls_of ?s 0 = 0"
    and q: "task_queue (run (TaskScheduler_init utc 5 None)
        (one_scheduled @ [Cancel ''a'', Worker 0])) = []"
    and n: "next_runner (run (TaskScheduler_init utc 5 None)
        (one_scheduled @ [Cancel ''a'', Worker 0])) = 0"
    and z: "\<not> fst (cancel_task ?s ''zz'')"
    by code_simp+
  note inst = cancel_task_and_dispatch [where ts = utc and n = 5 and saved = None
      and evs = one_scheduled and tid = "''a''" and r = 0 and evs' = after_cancel]
  note fin = inst [THEN conjunct2, THEN conjunct2, THEN conjunct2, THEN conjunct2,
      rule_format, OF conjI [OF e(1) conjI [OF e(2) conjI [OF e(3) e(4)]]]]
  from fin f have "fst (cancel_task ?s ''a'')"
    and "status (objects (run (TaskScheduler_init utc 5 None)
        (one_scheduled @ Cancel ''a'' # after_cancel)) 0) = Cancelled"
    and "calls_of (run (TaskScheduler_init utc 5 None)
        (one_scheduled @ Cancel ''a'' # after_cancel)) 0 = calls_of ?s 0"
    and "map_of (tasks (run (TaskScheduler_init utc 5 None)
        (one_scheduled @ Cancel ''a'' # after_cancel))) ''a'' = Some 0"
    by blast+
  with e f c0 q n z show ?thesis by simp
qed

subsection \<open>C1: the retry count never exceeds the maximum\<close>
















end
